theory Spec2Isabelle
  imports Main "HOL-Library.Multiset"
begin

section \<open>The thread pool of thread_pool.cpp as a transition system\<close>

text \<open>
  The pool is a record of the members of class ThreadPool; every thread that touches it
  is an event of an interleaving semantics. A worker is a program counter over the lines
  of the lambda in the constructor (thread_pool.cpp, lines 20 to 41); the mutex
  \<open>m_task_\<close> is the index of the worker that owns it (a producer or the destructor
  takes and releases it within one event). A waiting worker may wake at any moment, as
  \<open>std::condition_variable\<close> allows spurious wake-ups, so \<open>notify_one\<close> and
  \<open>notify_all\<close> change no field.
\<close>

subsection \<open>Failures, results and tasks\<close>

datatype ctor_error = RuntimeError string

datatype ('v, 'e) outcome = Returns 'v | Raises 'e

datatype ('v, 'e) cell = Pending | Value 'v | Failure 'e

datatype ('v, 'e) task = Task (chan: nat) (body: "unit \<Rightarrow> ('v, 'e) outcome")

text \<open>
  Modelled from the spec: the task wrapper that \<open>Enqueue\<close> builds (thread_pool.h is not
  among the sources). Section 4.2: a failure raised during execution is caught by the
  wrapper and written into the task's result channel as a failure value. The second
  component is the failure that leaves the call \<open>task()\<close>, if any.
\<close>

definition run_task :: "('v, 'e) task \<Rightarrow> ('v, 'e) cell list \<Rightarrow> ('v, 'e) cell list \<times> 'e option" where
  "run_task t cs =
     (case body t () of
        Returns v \<Rightarrow> (cs[chan t := Value v], None)
      | Raises e \<Rightarrow> (cs[chan t := Failure e], None))"

text \<open>
  Modelled from the spec: reading a handle (section 4.3). \<open>None\<close> is the reader still
  blocked on a pending channel; a failure value is raised again in the reader.
\<close>

fun future_get :: "('v, 'e) cell \<Rightarrow> ('v, 'e) outcome option" where
  "future_get Pending = None"
| "future_get (Value v) = Some (Returns v)"
| "future_get (Failure e) = Some (Raises e)"

subsection \<open>Workers and the pool\<close>

text \<open>
  Program points of the worker lambda: \<open>AtStart\<close> line 21, \<open>AtLock\<close> line 26,
  \<open>AtPred\<close> the predicate of the wait of line 27 evaluated under the lock,
  \<open>InWait\<close> blocked inside that wait with the lock released, \<open>AtCheck\<close> line 28,
  \<open>AtFront\<close> lines 31 and 32, \<open>AtUnlock\<close> line 33, \<open>AtCall\<close> line 35,
  \<open>AtStop\<close> line 38 (the code after the loop), \<open>Exited\<close> the thread function has
  returned, \<open>Aborted\<close> undefined behaviour or a failure that left the thread function.
\<close>

datatype ('v, 'e) wstate =
    AtStart | AtLock | InWait | AtPred | AtCheck | AtFront
  | AtUnlock "('v, 'e) task" | AtCall "('v, 'e) task"
  | AtStop | Exited | Aborted

datatype phase = Alive | Joining | Destroyed

record ('v, 'e) pool =
  num_threads :: nat
  on_thread_start :: bool
  on_thread_stop :: bool
  is_terminated :: bool
  tasks :: "('v, 'e) task list"
  m_task :: "nat option"
  threads :: "('v, 'e) wstate list"
  channels :: "('v, 'e) cell list"
  start_calls :: "nat list"
  stop_calls :: "nat list"
  finished :: "('v, 'e) task list"
  dtor :: phase

text \<open>
  The hooks are \<open>std::function<void()>\<close> values; the worker tests them for emptiness
  and calls them. The model keeps whether each was supplied and counts, per worker, how
  often it was called. \<open>finished\<close> is the log of the calls \<open>task()\<close> of line 35 that
  have returned, in the order of their return; \<open>dtor\<close> is where the destructor stands.
\<close>

definition ThreadPool :: "nat \<Rightarrow> bool \<Rightarrow> bool \<Rightarrow> ctor_error + ('v, 'e) pool" where
  "ThreadPool n on_start on_stop =
     (if n = 0 then Inl (RuntimeError ''The number of threads must be larger than 0.'')
      else Inr \<lparr> num_threads = n, on_thread_start = on_start, on_thread_stop = on_stop,
                 is_terminated = False, tasks = [], m_task = None,
                 threads = replicate n AtStart, channels = [],
                 start_calls = replicate n 0, stop_calls = replicate n 0,
                 finished = [], dtor = Alive \<rparr>)"

text \<open>
  The constructor without a thread count delegates to the one above with
  \<open>std::thread::hardware_concurrency()\<close>, a value of the platform and so a parameter.
\<close>

definition ThreadPool_default :: "nat \<Rightarrow> bool \<Rightarrow> bool \<Rightarrow> ctor_error + ('v, 'e) pool" where
  "ThreadPool_default hardware_concurrency on_start on_stop =
     ThreadPool hardware_concurrency on_start on_stop"

definition bump :: "nat \<Rightarrow> nat list \<Rightarrow> nat list" where
  "bump i cs = cs[i := Suc (cs ! i)]"

definition worker_step :: "nat \<Rightarrow> ('v, 'e) pool \<Rightarrow> ('v, 'e) pool option" where
  "worker_step i p =
     (if length (threads p) \<le> i then None
      else case threads p ! i of
        AtStart \<Rightarrow>
          Some (p\<lparr> threads := (threads p)[i := AtLock],
                   start_calls := (if on_thread_start p then bump i (start_calls p)
                                   else start_calls p) \<rparr>)
      | AtLock \<Rightarrow>
          (if m_task p = None
           then Some (p\<lparr> m_task := Some i, threads := (threads p)[i := AtPred] \<rparr>)
           else None)
      | InWait \<Rightarrow>
          (if m_task p = None
           then Some (p\<lparr> m_task := Some i, threads := (threads p)[i := AtPred] \<rparr>)
           else None)
      | AtPred \<Rightarrow>
          (if tasks p \<noteq> [] \<or> is_terminated p
           then Some (p\<lparr> threads := (threads p)[i := AtCheck] \<rparr>)
           else Some (p\<lparr> m_task := None, threads := (threads p)[i := InWait] \<rparr>))
      | AtCheck \<Rightarrow>
          (if tasks p = [] \<and> is_terminated p
           then Some (p\<lparr> m_task := None, threads := (threads p)[i := Exited] \<rparr>)
           else Some (p\<lparr> threads := (threads p)[i := AtFront] \<rparr>))
      | AtFront \<Rightarrow>
          (case tasks p of
             [] \<Rightarrow> Some (p\<lparr> threads := (threads p)[i := Aborted] \<rparr>)
           | t # q \<Rightarrow> Some (p\<lparr> tasks := q, threads := (threads p)[i := AtUnlock t] \<rparr>))
      | AtUnlock t \<Rightarrow>
          Some (p\<lparr> m_task := None, threads := (threads p)[i := AtCall t] \<rparr>)
      | AtCall t \<Rightarrow>
          (case run_task t (channels p) of
             (cs, None) \<Rightarrow> Some (p\<lparr> channels := cs, threads := (threads p)[i := AtLock],
                                     finished := finished p @ [t] \<rparr>)
           | (cs, Some e) \<Rightarrow> Some (p\<lparr> channels := cs, threads := (threads p)[i := Aborted] \<rparr>))
      | AtStop \<Rightarrow>
          Some (p\<lparr> threads := (threads p)[i := Exited],
                   stop_calls := (if on_thread_stop p then bump i (stop_calls p)
                                  else stop_calls p) \<rparr>)
      | Exited \<Rightarrow> None
      | Aborted \<Rightarrow> None)"

text \<open>
  Modelled from the spec: \<open>Enqueue\<close> (section 4.3; thread_pool.h is not among the
  sources). It builds a task around the bound callable and a fresh result channel,
  appends the task to the queue under the lock and returns the handle of the channel
  at once. The handle is the index of the channel.
\<close>

definition Enqueue :: "(unit \<Rightarrow> ('v, 'e) outcome) \<Rightarrow> ('v, 'e) pool \<Rightarrow> (('v, 'e) pool \<times> nat) option" where
  "Enqueue f p =
     (if m_task p = None
      then Some (p\<lparr> tasks := tasks p @ [Task (length (channels p)) f],
                     channels := channels p @ [Pending] \<rparr>,
                 length (channels p))
      else None)"

text \<open>
  The destructor, lines 45 to 56: \<open>Destruct\<close> is the block that sets the flag under
  the lock, \<open>Join\<close> the end of the loop of joins, which returns once every worker's
  thread function has returned.
\<close>

definition destruct :: "('v, 'e) pool \<Rightarrow> ('v, 'e) pool option" where
  "destruct p =
     (if dtor p = Alive \<and> m_task p = None
      then Some (p\<lparr> is_terminated := True, dtor := Joining \<rparr>)
      else None)"

definition join_all :: "('v, 'e) pool \<Rightarrow> ('v, 'e) pool option" where
  "join_all p =
     (if dtor p = Joining \<and> list_all (\<lambda>w. w = Exited) (threads p)
      then Some (p\<lparr> dtor := Destroyed \<rparr>)
      else None)"

datatype ('v, 'e) event =
    Worker nat | Submit "unit \<Rightarrow> ('v, 'e) outcome" | Destruct | Join

fun fire :: "('v, 'e) event \<Rightarrow> ('v, 'e) pool \<Rightarrow> ('v, 'e) pool option" where
  "fire (Worker i) p = worker_step i p"
| "fire (Submit f) p = map_option fst (Enqueue f p)"
| "fire Destruct p = destruct p"
| "fire Join p = join_all p"

fun exec :: "('v, 'e) event list \<Rightarrow> ('v, 'e) pool \<Rightarrow> ('v, 'e) pool option" where
  "exec [] p = Some p"
| "exec (ev # evs) p = (case fire ev p of None \<Rightarrow> None | Some p' \<Rightarrow> exec evs p')"

subsection \<open>Invariants of the reachable states\<close>

fun holds_lock :: "('v, 'e) wstate \<Rightarrow> bool" where
  "holds_lock AtPred = True"
| "holds_lock AtCheck = True"
| "holds_lock AtFront = True"
| "holds_lock (AtUnlock t) = True"
| "holds_lock w = False"

fun running :: "('v, 'e) wstate \<Rightarrow> ('v, 'e) task option" where
  "running (AtUnlock t) = Some t"
| "running (AtCall t) = Some t"
| "running w = None"

fun deliver :: "('v, 'e) outcome \<Rightarrow> ('v, 'e) cell" where
  "deliver (Returns v) = Value v"
| "deliver (Raises e) = Failure e"

definition lock_inv :: "('v, 'e) pool \<Rightarrow> bool" where
  "lock_inv p =
     ((\<forall>i. m_task p = Some i \<longrightarrow> i < length (threads p)) \<and>
      (\<forall>i < length (threads p). holds_lock (threads p ! i) = (m_task p = Some i)))"

definition loop_inv :: "('v, 'e) pool \<Rightarrow> bool" where
  "loop_inv p =
     (\<forall>i < length (threads p).
        (threads p ! i = AtCheck \<longrightarrow> tasks p \<noteq> [] \<or> is_terminated p) \<and>
        (threads p ! i = AtFront \<longrightarrow> tasks p \<noteq> []) \<and>
        threads p ! i \<noteq> Aborted \<and> threads p ! i \<noteq> AtStop \<and>
        (threads p ! i = Exited \<longrightarrow> is_terminated p))"

definition count_inv :: "('v, 'e) pool \<Rightarrow> bool" where
  "count_inv p =
     (length (threads p) = num_threads p \<and> 0 < num_threads p \<and>
      length (start_calls p) = num_threads p \<and>
      length (stop_calls p) = num_threads p \<and>
      (\<forall>i < num_threads p. stop_calls p ! i = 0))"

definition dtor_inv :: "('v, 'e) pool \<Rightarrow> bool" where
  "dtor_inv p =
     ((dtor p = Alive) = (\<not> is_terminated p) \<and>
      (dtor p = Destroyed \<longrightarrow> (\<forall>i < length (threads p). threads p ! i = Exited)))"

text \<open>
  The result channels against the queue \<open>q\<close>, the log \<open>fin\<close> of returned calls and
  the task each worker holds: no two tasks share a channel, the channel of a task not
  yet run is pending, and the channel of a task whose call has returned holds what its
  callable yielded.
\<close>

definition chan_ok ::
  "('v, 'e) task list \<Rightarrow> ('v, 'e) cell list \<Rightarrow> ('v, 'e) task list \<Rightarrow>
   ('v, 'e) task option list \<Rightarrow> bool" where
  "chan_ok q cs fin held =
     (distinct (map chan q) \<and>
      (\<forall>t \<in> set q.
         chan t < length cs \<and> cs ! chan t = Pending \<and>
         (\<forall>u \<in> set fin. chan u \<noteq> chan t)) \<and>
      (\<forall>i < length held. \<forall>t. held ! i = Some t \<longrightarrow>
         chan t < length cs \<and> cs ! chan t = Pending \<and>
         (\<forall>u \<in> set q. chan u \<noteq> chan t) \<and>
         (\<forall>u \<in> set fin. chan u \<noteq> chan t) \<and>
         (\<forall>j < length held. \<forall>u. j \<noteq> i \<longrightarrow> held ! j = Some u \<longrightarrow> chan u \<noteq> chan t)) \<and>
      (\<forall>t \<in> set fin. chan t < length cs \<and> cs ! chan t = deliver (body t ())))"

definition chan_inv :: "('v, 'e) pool \<Rightarrow> bool" where
  "chan_inv p = chan_ok (tasks p) (channels p) (finished p) (map running (threads p))"

definition pool_inv :: "('v, 'e) pool \<Rightarrow> bool" where
  "pool_inv p = (lock_inv p \<and> loop_inv p \<and> count_inv p \<and> dtor_inv p \<and> chan_inv p)"

text \<open>
  Where a submitted task stands: waiting in the queue of a pool that still has a worker,
  held by a worker between the pop and the return of its call, or in the log of the
  calls that have returned.
\<close>

definition track :: "('v, 'e) task \<Rightarrow> ('v, 'e) pool \<Rightarrow> bool" where
  "track t p =
     ((t \<in> set (tasks p) \<and> (\<exists>i < length (threads p). threads p ! i \<noteq> Exited)) \<or>
      (\<exists>i < length (threads p). running (threads p ! i) = Some t) \<or>
      t \<in> set (finished p))"

text \<open>The number of steps a worker is away from its next pop, for the progress proof.\<close>

fun rank :: "('v, 'e) wstate \<Rightarrow> nat" where
  "rank AtStart = 7"
| "rank (AtUnlock t) = 6"
| "rank (AtCall t) = 5"
| "rank AtLock = 4"
| "rank InWait = 4"
| "rank AtPred = 3"
| "rank AtCheck = 2"
| "rank AtFront = 1"
| "rank w = 0"

definition weight :: "('v, 'e) pool \<Rightarrow> nat \<times> nat" where
  "weight p = (length (tasks p), sum_list (map rank (threads p)))"

section \<open>The parallel algorithm \<open>ForEach\<close>\<close>

text \<open>
  Modelled from the spec: the partition of a range of \<open>n\<close> elements (section 4.4;
  thread_pool.h, which holds \<open>ForEach\<close> and \<open>TransformReduce\<close>, is not among the
  sources): \<open>min(threadCount, rangeLength)\<close> contiguous chunks that do not overlap,
  whose sizes differ by at most one, the earlier ones absorbing the remainder; no chunk
  for the empty range. A chunk is the pair of its first index and the index after its
  last.
\<close>

definition chunk_begin :: "nat \<Rightarrow> nat \<Rightarrow> nat \<Rightarrow> nat" where
  "chunk_begin k n i = i * (n div k) + min i (n mod k)"

definition chunks :: "nat \<Rightarrow> nat \<Rightarrow> (nat \<times> nat) list" where
  "chunks thread_count n =
     (let k = min thread_count n in
      if k = 0 then []
      else map (\<lambda>i. (chunk_begin k n i, chunk_begin k n (Suc i))) [0..<k])"

text \<open>
  Modelled from the spec: \<open>ForEach\<close> (section 4.4). The range is the caller's storage,
  a list updated in place; a call of \<open>fn\<close> on the element at index \<open>i\<close> replaces that
  element and is recorded in a log of visited indices. One task per chunk visits the
  indices of its chunk in ascending order; \<open>ForEach\<close> returns after all of them.
\<close>

definition visit :: "('a \<Rightarrow> 'a) \<Rightarrow> nat \<Rightarrow> 'a list \<times> nat list \<Rightarrow> 'a list \<times> nat list" where
  "visit fn i st = ((fst st)[i := fn (fst st ! i)], snd st @ [i])"

definition chunk_task :: "('a \<Rightarrow> 'a) \<Rightarrow> nat \<times> nat \<Rightarrow> 'a list \<times> nat list \<Rightarrow> 'a list \<times> nat list" where
  "chunk_task fn c st = fold (visit fn) [fst c..<snd c] st"

definition ForEach :: "nat \<Rightarrow> ('a \<Rightarrow> 'a) \<Rightarrow> 'a list \<Rightarrow> 'a list \<times> nat list" where
  "ForEach thread_count fn xs = fold (chunk_task fn) (chunks thread_count (length xs)) (xs, [])"

section \<open>Invariants of the pool\<close>

lemma run_task_fst: "fst (run_task t cs) = cs[chan t := deliver (body t ())]"
  by (cases "body t ()") (simp_all add: run_task_def)

lemma run_task_snd: "snd (run_task t cs) = None"
  by (cases "body t ()") (simp_all add: run_task_def)

lemma worker_stepE:
  assumes "worker_step i p = Some p'"
  obtains
    (start) "i < length (threads p)" "threads p ! i = AtStart"
      "p' = p\<lparr> threads := (threads p)[i := AtLock],
                start_calls := (if on_thread_start p then bump i (start_calls p)
                                else start_calls p) \<rparr>"
  | (lock) "i < length (threads p)" "threads p ! i = AtLock \<or> threads p ! i = InWait"
      "m_task p = None"
      "p' = p\<lparr> m_task := Some i, threads := (threads p)[i := AtPred] \<rparr>"
  | (pred_true) "i < length (threads p)" "threads p ! i = AtPred"
      "tasks p \<noteq> [] \<or> is_terminated p"
      "p' = p\<lparr> threads := (threads p)[i := AtCheck] \<rparr>"
  | (pred_false) "i < length (threads p)" "threads p ! i = AtPred"
      "tasks p = []" "\<not> is_terminated p"
      "p' = p\<lparr> m_task := None, threads := (threads p)[i := InWait] \<rparr>"
  | (leave) "i < length (threads p)" "threads p ! i = AtCheck"
      "tasks p = []" "is_terminated p"
      "p' = p\<lparr> m_task := None, threads := (threads p)[i := Exited] \<rparr>"
  | (stay) "i < length (threads p)" "threads p ! i = AtCheck"
      "tasks p \<noteq> [] \<or> \<not> is_terminated p"
      "p' = p\<lparr> threads := (threads p)[i := AtFront] \<rparr>"
  | (empty_front) "i < length (threads p)" "threads p ! i = AtFront" "tasks p = []"
      "p' = p\<lparr> threads := (threads p)[i := Aborted] \<rparr>"
  | (pop) t q where "i < length (threads p)" "threads p ! i = AtFront" "tasks p = t # q"
      "p' = p\<lparr> tasks := q, threads := (threads p)[i := AtUnlock t] \<rparr>"
  | (unlock) t where "i < length (threads p)" "threads p ! i = AtUnlock t"
      "p' = p\<lparr> m_task := None, threads := (threads p)[i := AtCall t] \<rparr>"
  | (call) t where "i < length (threads p)" "threads p ! i = AtCall t"
      "p' = p\<lparr> channels := (channels p)[chan t := deliver (body t ())],
                threads := (threads p)[i := AtLock], finished := finished p @ [t] \<rparr>"
  | (stop) "i < length (threads p)" "threads p ! i = AtStop"
      "p' = p\<lparr> threads := (threads p)[i := Exited],
                stop_calls := (if on_thread_stop p then bump i (stop_calls p)
                               else stop_calls p) \<rparr>"
proof -
  from assms have len: "i < length (threads p)"
    by (simp add: worker_step_def split: if_splits)
  show thesis
  proof (cases "threads p ! i")
    case AtStart with assms len start show ?thesis by (simp add: worker_step_def)
  next
    case AtLock with assms len lock show ?thesis by (simp add: worker_step_def split: if_splits)
  next
    case InWait with assms len lock show ?thesis by (simp add: worker_step_def split: if_splits)
  next
    case AtPred
    show ?thesis
    proof (cases "tasks p \<noteq> [] \<or> is_terminated p")
      case True with AtPred assms len pred_true show ?thesis by (simp add: worker_step_def)
    next
      case False with AtPred assms len pred_false show ?thesis by (simp add: worker_step_def)
    qed
  next
    case AtCheck
    show ?thesis
    proof (cases "tasks p = [] \<and> is_terminated p")
      case True with AtCheck assms len leave show ?thesis by (simp add: worker_step_def)
    next
      case False with AtCheck assms len stay show ?thesis by (simp add: worker_step_def)
    qed
  next
    case AtFront
    show ?thesis
    proof (cases "tasks p")
      case Nil with AtFront assms len empty_front show ?thesis by (simp add: worker_step_def)
    next
      case (Cons t q) with AtFront assms len pop show ?thesis by (simp add: worker_step_def)
    qed
  next
    case (AtUnlock t) with assms len unlock show ?thesis by (simp add: worker_step_def)
  next
    case (AtCall t)
    have "run_task t (channels p) = ((channels p)[chan t := deliver (body t ())], None)"
      using run_task_fst [of t "channels p"] run_task_snd [of t "channels p"]
      by (cases "run_task t (channels p)") simp
    with AtCall assms len call show ?thesis by (simp add: worker_step_def)
  next
    case AtStop with assms len stop show ?thesis by (simp add: worker_step_def)
  next
    case Exited with assms len show ?thesis by (simp add: worker_step_def)
  next
    case Aborted with assms len show ?thesis by (simp add: worker_step_def)
  qed
qed

lemma lock_inv_init: "ThreadPool n a b = Inr p \<Longrightarrow> lock_inv p"
  by (auto simp: ThreadPool_def lock_inv_def split: if_splits)

lemma loop_inv_init: "ThreadPool n a b = Inr p \<Longrightarrow> loop_inv p"
  by (auto simp: ThreadPool_def loop_inv_def split: if_splits)

lemma count_inv_init: "ThreadPool n a b = Inr p \<Longrightarrow> count_inv p"
  by (auto simp: ThreadPool_def count_inv_def split: if_splits)

lemma dtor_inv_init: "ThreadPool n a b = Inr p \<Longrightarrow> dtor_inv p"
  by (auto simp: ThreadPool_def dtor_inv_def split: if_splits)

lemma chan_inv_init: "ThreadPool n a b = Inr p \<Longrightarrow> chan_inv p"
  by (auto simp: ThreadPool_def chan_inv_def chan_ok_def split: if_splits)

lemma pool_inv_init: "ThreadPool n a b = Inr p \<Longrightarrow> pool_inv p"
  by (simp add: pool_inv_def lock_inv_init loop_inv_init count_inv_init dtor_inv_init
      chan_inv_init)

lemma worker_step_loopE:
  assumes "worker_step i p = Some p'" "loop_inv p"
  obtains
    (start) "i < length (threads p)" "threads p ! i = AtStart"
      "p' = p\<lparr> threads := (threads p)[i := AtLock],
                start_calls := (if on_thread_start p then bump i (start_calls p)
                                else start_calls p) \<rparr>"
  | (lock) "i < length (threads p)" "threads p ! i = AtLock \<or> threads p ! i = InWait"
      "m_task p = None"
      "p' = p\<lparr> m_task := Some i, threads := (threads p)[i := AtPred] \<rparr>"
  | (pred_true) "i < length (threads p)" "threads p ! i = AtPred"
      "tasks p \<noteq> [] \<or> is_terminated p"
      "p' = p\<lparr> threads := (threads p)[i := AtCheck] \<rparr>"
  | (pred_false) "i < length (threads p)" "threads p ! i = AtPred"
      "tasks p = []" "\<not> is_terminated p"
      "p' = p\<lparr> m_task := None, threads := (threads p)[i := InWait] \<rparr>"
  | (leave) "i < length (threads p)" "threads p ! i = AtCheck"
      "tasks p = []" "is_terminated p"
      "p' = p\<lparr> m_task := None, threads := (threads p)[i := Exited] \<rparr>"
  | (stay) "i < length (threads p)" "threads p ! i = AtCheck"
      "tasks p \<noteq> []"
      "p' = p\<lparr> threads := (threads p)[i := AtFront] \<rparr>"
  | (pop) t q where "i < length (threads p)" "threads p ! i = AtFront" "tasks p = t # q"
      "p' = p\<lparr> tasks := q, threads := (threads p)[i := AtUnlock t] \<rparr>"
  | (unlock) t where "i < length (threads p)" "threads p ! i = AtUnlock t"
      "p' = p\<lparr> m_task := None, threads := (threads p)[i := AtCall t] \<rparr>"
  | (call) t where "i < length (threads p)" "threads p ! i = AtCall t"
      "p' = p\<lparr> channels := (channels p)[chan t := deliver (body t ())],
                threads := (threads p)[i := AtLock], finished := finished p @ [t] \<rparr>"
  using assms(1)
proof (cases rule: worker_stepE)
  case start then show ?thesis by (rule that(1))
next
  case lock then show ?thesis by (rule that(2))
next
  case pred_true then show ?thesis by (rule that(3))
next
  case pred_false then show ?thesis by (rule that(4))
next
  case leave then show ?thesis by (rule that(5))
next
  case stay
  with assms(2) have "tasks p \<noteq> []" by (auto simp: loop_inv_def)
  with stay show ?thesis using that(6) by simp
next
  case empty_front
  with assms(2) have False by (auto simp: loop_inv_def)
  then show ?thesis ..
next
  case (pop t q) then show ?thesis by (rule that(7))
next
  case (unlock t) then show ?thesis by (rule that(8))
next
  case (call t) then show ?thesis by (rule that(9))
next
  case stop
  with assms(2) have False by (auto simp: loop_inv_def)
  then show ?thesis ..
qed

lemma lock_inv_worker:
  assumes "lock_inv p" "loop_inv p" "worker_step i p = Some p'"
  shows "lock_inv p'"
  using assms(3,2)
proof (cases rule: worker_step_loopE)
  case start with assms(1) show ?thesis by (auto simp: lock_inv_def nth_list_update)
next
  case lock with assms(1) show ?thesis by (auto simp: lock_inv_def nth_list_update)
next
  case pred_true with assms(1) show ?thesis by (auto simp: lock_inv_def nth_list_update)
next
  case pred_false with assms(1) show ?thesis by (auto simp: lock_inv_def nth_list_update)
next
  case leave with assms(1) show ?thesis by (auto simp: lock_inv_def nth_list_update)
next
  case stay with assms(1) show ?thesis by (auto simp: lock_inv_def nth_list_update)
next
  case (pop t q) with assms(1) show ?thesis by (auto simp: lock_inv_def nth_list_update)
next
  case (unlock t) with assms(1) show ?thesis by (auto simp: lock_inv_def nth_list_update)
next
  case (call t) with assms(1) show ?thesis by (auto simp: lock_inv_def nth_list_update)
qed

lemma loop_inv_worker:
  assumes "lock_inv p" "loop_inv p" "worker_step i p = Some p'"
  shows "loop_inv p'"
  using assms(3,2)
proof (cases rule: worker_step_loopE)
  case start with assms(2) show ?thesis by (auto simp: loop_inv_def nth_list_update)
next
  case lock with assms(2) show ?thesis by (auto simp: loop_inv_def nth_list_update)
next
  case pred_true with assms(2) show ?thesis by (auto simp: loop_inv_def nth_list_update)
next
  case pred_false with assms(2) show ?thesis by (auto simp: loop_inv_def nth_list_update)
next
  case leave with assms(2) show ?thesis by (auto simp: loop_inv_def nth_list_update)
next
  case stay with assms(2) show ?thesis by (auto simp: loop_inv_def nth_list_update)
next
  case (pop t q)
  have other: "threads p ! j \<noteq> AtCheck \<and> threads p ! j \<noteq> AtFront"
    if "j < length (threads p)" "j \<noteq> i" for j
  proof -
    from pop assms(1) have "m_task p = Some i" by (auto simp: lock_inv_def)
    with that assms(1) have "\<not> holds_lock (threads p ! j)" by (auto simp: lock_inv_def)
    then show ?thesis by auto
  qed
  with pop assms(2) show ?thesis by (auto simp: loop_inv_def nth_list_update)
next
  case (unlock t) with assms(2) show ?thesis by (auto simp: loop_inv_def nth_list_update)
next
  case (call t) with assms(2) show ?thesis by (auto simp: loop_inv_def nth_list_update)
qed

lemma count_inv_worker:
  assumes "count_inv p" "loop_inv p" "worker_step i p = Some p'"
  shows "count_inv p'"
  using assms(3,2)
proof (cases rule: worker_step_loopE)
  case start with assms(1) show ?thesis by (auto simp: count_inv_def bump_def)
qed (use assms(1) in \<open>auto simp: count_inv_def\<close>)

lemma dtor_inv_worker:
  assumes "dtor_inv p" "loop_inv p" "worker_step i p = Some p'"
  shows "dtor_inv p'"
  using assms(3,2)
proof (cases rule: worker_step_loopE)
qed (use assms(1) in \<open>auto simp: dtor_inv_def nth_list_update\<close>)

lemma chan_ok_pop:
  assumes "chan_ok (t # q) cs fin held" "i < length held" "held ! i = None"
  shows "chan_ok q cs fin (held[i := Some t])"
proof -
  from assms(1) have
    d: "distinct (map chan q)" "chan t \<notin> chan ` set q" and
    q: "\<forall>u \<in> set (t # q). chan u < length cs \<and> cs ! chan u = Pending \<and>
         (\<forall>v \<in> set fin. chan v \<noteq> chan u)" and
    w: "\<forall>j < length held. \<forall>u. held ! j = Some u \<longrightarrow>
         chan u < length cs \<and> cs ! chan u = Pending \<and>
         (\<forall>v \<in> set (t # q). chan v \<noteq> chan u) \<and>
         (\<forall>v \<in> set fin. chan v \<noteq> chan u) \<and>
         (\<forall>k < length held. \<forall>v. k \<noteq> j \<longrightarrow> held ! k = Some v \<longrightarrow> chan v \<noteq> chan u)" and
    f: "\<forall>u \<in> set fin. chan u < length cs \<and> cs ! chan u = deliver (body u ())"
    unfolding chan_ok_def by simp_all
  have r: "held[i := Some t] ! j = (if j = i then Some t else held ! j)"
    if "j < length held" for j
    using that by (simp add: nth_list_update)
  show ?thesis
    unfolding chan_ok_def length_list_update
  proof (intro conjI allI impI ballI)
    show "distinct (map chan q)" by (rule d)
  next
    fix u assume "u \<in> set q"
    with q show "chan u < length cs" "cs ! chan u = Pending" by auto
  next
    fix u v assume "u \<in> set q" "v \<in> set fin"
    with q show "chan v \<noteq> chan u" by auto
  next
    fix j u assume j: "j < length held" and u: "held[i := Some t] ! j = Some u"
    show "chan u < length cs" "cs ! chan u = Pending"
      using j u r [OF j] q w by (auto split: if_splits)
  next
    fix j u v assume j: "j < length held" and u: "held[i := Some t] ! j = Some u"
      and v: "v \<in> set q"
    show "chan v \<noteq> chan u"
    proof (cases "j = i")
      case True
      with u r [OF j] have "u = t" by simp
      with d(2) v show ?thesis by (metis imageI)
    next
      case False
      with u r [OF j] have "held ! j = Some u" by simp
      with w j v show ?thesis by simp
    qed
  next
    fix j u v assume j: "j < length held" and u: "held[i := Some t] ! j = Some u"
      and v: "v \<in> set fin"
    show "chan v \<noteq> chan u"
    proof (cases "j = i")
      case True
      with u r [OF j] have "u = t" by simp
      with q v show ?thesis by simp
    next
      case False
      with u r [OF j] have "held ! j = Some u" by simp
      with w j v show ?thesis by simp
    qed
  next
    fix j u k v assume j: "j < length held" and u: "held[i := Some t] ! j = Some u"
      and k: "k < length held" "k \<noteq> j" and v: "held[i := Some t] ! k = Some v"
    show "chan v \<noteq> chan u"
    proof (cases "j = i")
      case True
      with u r [OF j] have ut: "u = t" by simp
      from k True v r [OF k(1)] have "held ! k = Some v" by simp
      with w k(1) have "\<forall>x \<in> set (t # q). chan x \<noteq> chan v" by blast
      with ut show ?thesis by simp
    next
      case False
      with u r [OF j] have ju: "held ! j = Some u" by simp
      show ?thesis
      proof (cases "k = i")
        case True
        with v r [OF k(1)] have vt: "v = t" by simp
        from ju w j have "\<forall>x \<in> set (t # q). chan x \<noteq> chan u" by blast
        with vt show ?thesis by simp
      next
        case False
        with v r [OF k(1)] have "held ! k = Some v" by simp
        with ju w j k show ?thesis by blast
      qed
    qed
  next
    fix u assume "u \<in> set fin"
    with f show "chan u < length cs" "cs ! chan u = deliver (body u ())"
      by auto
  qed
qed

lemma chan_ok_call:
  assumes "chan_ok q cs fin held" "i < length held" "held ! i = Some t"
  shows "chan_ok q (cs[chan t := deliver (body t ())]) (fin @ [t]) (held[i := None])"
proof -
  from assms(1) have
    d: "distinct (map chan q)" and
    q: "\<forall>u \<in> set q. chan u < length cs \<and> cs ! chan u = Pending \<and>
         (\<forall>v \<in> set fin. chan v \<noteq> chan u)" and
    w: "\<forall>j < length held. \<forall>u. held ! j = Some u \<longrightarrow>
         chan u < length cs \<and> cs ! chan u = Pending \<and>
         (\<forall>v \<in> set q. chan v \<noteq> chan u) \<and>
         (\<forall>v \<in> set fin. chan v \<noteq> chan u) \<and>
         (\<forall>k < length held. \<forall>v. k \<noteq> j \<longrightarrow> held ! k = Some v \<longrightarrow> chan v \<noteq> chan u)" and
    f: "\<forall>u \<in> set fin. chan u < length cs \<and> cs ! chan u = deliver (body u ())"
    unfolding chan_ok_def by simp_all
  from w assms(2,3) have
    ti: "chan t < length cs" and
    tq: "\<forall>v \<in> set q. chan v \<noteq> chan t" and
    tf: "\<forall>v \<in> set fin. chan v \<noteq> chan t" and
    tw: "\<forall>k < length held. \<forall>v. k \<noteq> i \<longrightarrow> held ! k = Some v \<longrightarrow> chan v \<noteq> chan t"
    by blast+
  have r: "held[i := None] ! j = (if j = i then None else held ! j)"
    if "j < length held" for j
    using that by (simp add: nth_list_update)
  show ?thesis
    unfolding chan_ok_def length_list_update
  proof (intro conjI allI impI ballI)
    show "distinct (map chan q)" by (rule d)
  next
    fix u assume u: "u \<in> set q"
    with q show "chan u < length cs" by simp
    from u tq have "chan u \<noteq> chan t" by blast
    moreover from u q have "cs ! chan u = Pending" by blast
    ultimately show "cs[chan t := deliver (body t ())] ! chan u = Pending"
      by (simp add: nth_list_update)
  next
    fix u v assume "u \<in> set q" "v \<in> set (fin @ [t])"
    with q tq show "chan v \<noteq> chan u" by auto
  next
    fix j u assume j: "j < length held" and u: "held[i := None] ! j = Some u"
    then have ju: "j \<noteq> i" "held ! j = Some u"
      using r [OF j] by (auto split: if_splits)
    with w j show "chan u < length cs" by simp
    from tw j ju have "chan u \<noteq> chan t" by blast
    moreover from w j ju have "cs ! chan u = Pending" by blast
    ultimately show "cs[chan t := deliver (body t ())] ! chan u = Pending"
      by (simp add: nth_list_update)
  next
    fix j u v assume j: "j < length held" and u: "held[i := None] ! j = Some u"
      and v: "v \<in> set q"
    then have ju: "j \<noteq> i" "held ! j = Some u"
      using r [OF j] by (auto split: if_splits)
    with w j v show "chan v \<noteq> chan u" by blast
  next
    fix j u v assume j: "j < length held" and u: "held[i := None] ! j = Some u"
      and v: "v \<in> set (fin @ [t])"
    then have ju: "j \<noteq> i" "held ! j = Some u"
      using r [OF j] by (auto split: if_splits)
    from tw j ju have "chan u \<noteq> chan t" by blast
    moreover from w j ju have "\<forall>v \<in> set fin. chan v \<noteq> chan u" by blast
    ultimately show "chan v \<noteq> chan u" using v by auto
  next
    fix j u k v assume j: "j < length held" and u: "held[i := None] ! j = Some u"
      and k: "k < length held" "k \<noteq> j" and v: "held[i := None] ! k = Some v"
    from j u have ju: "held ! j = Some u"
      using r [OF j] by (auto split: if_splits)
    from k v have kv: "held ! k = Some v"
      using r [OF k(1)] by (auto split: if_splits)
    from w j ju k kv show "chan v \<noteq> chan u" by blast
  next
    fix u assume u: "u \<in> set (fin @ [t])"
    show "chan u < length cs"
      using u f ti by auto
    show "cs[chan t := deliver (body t ())] ! chan u = deliver (body u ())"
    proof (cases "u = t")
      case True with ti show ?thesis by simp
    next
      case False
      with u have uf: "u \<in> set fin" by simp
      with tf have "chan u \<noteq> chan t" by blast
      moreover from uf f have "cs ! chan u = deliver (body u ())" by blast
      ultimately show ?thesis by (simp add: nth_list_update)
    qed
  qed
qed

lemma chan_ok_enqueue:
  assumes "chan_ok q cs fin held"
  shows "chan_ok (q @ [Task (length cs) f]) (cs @ [Pending]) fin held"
proof -
  from assms(1) have
    d: "distinct (map chan q)" and
    q: "\<forall>u \<in> set q. chan u < length cs \<and> cs ! chan u = Pending \<and>
         (\<forall>v \<in> set fin. chan v \<noteq> chan u)" and
    w: "\<forall>j < length held. \<forall>u. held ! j = Some u \<longrightarrow>
         chan u < length cs \<and> cs ! chan u = Pending \<and>
         (\<forall>v \<in> set q. chan v \<noteq> chan u) \<and>
         (\<forall>v \<in> set fin. chan v \<noteq> chan u) \<and>
         (\<forall>k < length held. \<forall>v. k \<noteq> j \<longrightarrow> held ! k = Some v \<longrightarrow> chan v \<noteq> chan u)" and
    f: "\<forall>u \<in> set fin. chan u < length cs \<and> cs ! chan u = deliver (body u ())"
    unfolding chan_ok_def by simp_all
  show ?thesis
    unfolding chan_ok_def
  proof (intro conjI allI impI ballI)
    from d q show "distinct (map chan (q @ [Task (length cs) f]))" by auto
  next
    fix u assume u: "u \<in> set (q @ [Task (length cs) f])"
    with q show "chan u < length (cs @ [Pending])" by auto
    from u q show "(cs @ [Pending]) ! chan u = Pending" by (auto simp: nth_append)
  next
    fix u v assume "u \<in> set (q @ [Task (length cs) f])" "v \<in> set fin"
    with q f show "chan v \<noteq> chan u" by auto
  next
    fix j u assume j: "j < length held" and u: "held ! j = Some u"
    with w show "chan u < length (cs @ [Pending])" by auto
    from j u w show "(cs @ [Pending]) ! chan u = Pending" by (auto simp: nth_append)
  next
    fix j u v assume j: "j < length held" and u: "held ! j = Some u"
      and v: "v \<in> set (q @ [Task (length cs) f])"
    from w j u have "chan u < length cs" "\<forall>v \<in> set q. chan v \<noteq> chan u" by blast+
    with v show "chan v \<noteq> chan u" by auto
  next
    fix j u v assume j: "j < length held" and u: "held ! j = Some u" and v: "v \<in> set fin"
    with w show "chan v \<noteq> chan u" by blast
  next
    fix j u k v assume j: "j < length held" and u: "held ! j = Some u"
      and k: "k < length held" "k \<noteq> j" and v: "held ! k = Some v"
    with w show "chan v \<noteq> chan u" by blast
  next
    fix u assume u: "u \<in> set fin"
    with f show "chan u < length (cs @ [Pending])" by auto
    from u f show "(cs @ [Pending]) ! chan u = deliver (body u ())" by (auto simp: nth_append)
  qed
qed

lemma held_same:
  assumes "i < length ws" "running (ws ! i) = running w"
  shows "map running (ws[i := w]) = map running ws"
proof -
  have "(map running ws)[i := running w] = map running ws"
    using assms by (simp add: list_update_same_conv)
  then show ?thesis by (simp add: map_update)
qed

lemma chan_inv_worker:
  assumes "chan_inv p" "loop_inv p" "worker_step i p = Some p'"
  shows "chan_inv p'"
  using assms(3,2)
proof (cases rule: worker_step_loopE)
  case start
  then have "map running (threads p') = map running (threads p)" by (simp add: held_same)
  with start assms(1) show ?thesis by (simp add: chan_inv_def)
next
  case lock
  then have "map running (threads p') = map running (threads p)" by (auto simp: held_same)
  with lock assms(1) show ?thesis by (simp add: chan_inv_def)
next
  case pred_true
  then have "map running (threads p') = map running (threads p)" by (simp add: held_same)
  with pred_true assms(1) show ?thesis by (simp add: chan_inv_def)
next
  case pred_false
  then have "map running (threads p') = map running (threads p)" by (simp add: held_same)
  with pred_false assms(1) show ?thesis by (simp add: chan_inv_def)
next
  case leave
  then have "map running (threads p') = map running (threads p)" by (simp add: held_same)
  with leave assms(1) show ?thesis by (simp add: chan_inv_def)
next
  case stay
  then have "map running (threads p') = map running (threads p)" by (simp add: held_same)
  with stay assms(1) show ?thesis by (simp add: chan_inv_def)
next
  case (pop t q)
  then have h: "map running (threads p') = (map running (threads p))[i := Some t]"
    by (simp add: map_update)
  from pop assms(1) have "chan_ok (t # q) (channels p) (finished p) (map running (threads p))"
    by (simp add: chan_inv_def)
  moreover from pop have "map running (threads p) ! i = None" by simp
  ultimately have "chan_ok q (channels p) (finished p) ((map running (threads p))[i := Some t])"
    using pop(1) by (intro chan_ok_pop) simp_all
  with pop h show ?thesis by (simp add: chan_inv_def)
next
  case (unlock t)
  then have "map running (threads p') = map running (threads p)" by (simp add: held_same)
  with unlock assms(1) show ?thesis by (simp add: chan_inv_def)
next
  case (call t)
  then have h: "map running (threads p') = (map running (threads p))[i := None]"
    by (simp add: map_update)
  from call have "map running (threads p) ! i = Some t" by simp
  with assms(1) call(1)
  have "chan_ok (tasks p) ((channels p)[chan t := deliver (body t ())]) (finished p @ [t])
          ((map running (threads p))[i := None])"
    unfolding chan_inv_def by (intro chan_ok_call) simp_all
  with call h show ?thesis by (simp add: chan_inv_def)
qed

lemma pool_inv_worker:
  assumes "pool_inv p" "worker_step i p = Some p'"
  shows "pool_inv p'"
  using assms lock_inv_worker loop_inv_worker count_inv_worker dtor_inv_worker
    chan_inv_worker unfolding pool_inv_def by blast

lemma pool_inv_enqueue:
  assumes "pool_inv p" "Enqueue f p = Some (p', h)"
  shows "pool_inv p'"
proof -
  from assms(2) have p': "m_task p = None"
    "p' = p\<lparr> tasks := tasks p @ [Task (length (channels p)) f],
              channels := channels p @ [Pending] \<rparr>"
    by (auto simp: Enqueue_def split: if_splits)
  from assms(1) have "lock_inv p'" by (simp add: p' pool_inv_def lock_inv_def)
  moreover from assms(1) have "loop_inv p'" by (simp add: p' pool_inv_def loop_inv_def)
  moreover from assms(1) have "count_inv p'" by (simp add: p' pool_inv_def count_inv_def)
  moreover from assms(1) have "dtor_inv p'" by (simp add: p' pool_inv_def dtor_inv_def)
  moreover from assms(1) have "chan_inv p'"
    by (simp add: p' pool_inv_def chan_inv_def chan_ok_enqueue)
  ultimately show ?thesis by (simp add: pool_inv_def)
qed

lemma pool_inv_destruct:
  assumes "pool_inv p" "destruct p = Some p'"
  shows "pool_inv p'"
proof -
  from assms(2) have p': "dtor p = Alive" "m_task p = None"
    "p' = p\<lparr> is_terminated := True, dtor := Joining \<rparr>"
    by (auto simp: destruct_def split: if_splits)
  from assms(1) have "lock_inv p'" by (simp add: p' pool_inv_def lock_inv_def)
  moreover from assms(1) have "loop_inv p'" by (simp add: p' pool_inv_def loop_inv_def)
  moreover from assms(1) have "count_inv p'" by (simp add: p' pool_inv_def count_inv_def)
  moreover from assms(1) have "dtor_inv p'" by (simp add: p' pool_inv_def dtor_inv_def)
  moreover from assms(1) have "chan_inv p'" by (simp add: p' pool_inv_def chan_inv_def)
  ultimately show ?thesis by (simp add: pool_inv_def)
qed

lemma pool_inv_join:
  assumes "pool_inv p" "join_all p = Some p'"
  shows "pool_inv p'"
proof -
  from assms(2) have p': "dtor p = Joining" "list_all (\<lambda>w. w = Exited) (threads p)"
    "p' = p\<lparr> dtor := Destroyed \<rparr>"
    by (auto simp: join_all_def split: if_splits)
  from assms(1) have "lock_inv p'" by (simp add: p' pool_inv_def lock_inv_def)
  moreover from assms(1) have "loop_inv p'" by (simp add: p' pool_inv_def loop_inv_def)
  moreover from assms(1) have "count_inv p'" by (simp add: p' pool_inv_def count_inv_def)
  moreover from assms(1) p'(1,2) have "dtor_inv p'"
    by (simp add: p'(3) pool_inv_def dtor_inv_def list_all_length)
  moreover from assms(1) have "chan_inv p'" by (simp add: p' pool_inv_def chan_inv_def)
  ultimately show ?thesis by (simp add: pool_inv_def)
qed

lemma pool_inv_fire:
  assumes "pool_inv p" "fire ev p = Some p'"
  shows "pool_inv p'"
proof (cases ev)
  case (Worker i)
  with assms show ?thesis by (simp add: pool_inv_worker)
next
  case (Submit f)
  with assms obtain h where "Enqueue f p = Some (p', h)" by auto
  with assms(1) show ?thesis by (rule pool_inv_enqueue)
next
  case Destruct
  with assms show ?thesis by (simp add: pool_inv_destruct)
next
  case Join
  with assms show ?thesis by (simp add: pool_inv_join)
qed

lemma pool_inv_exec:
  assumes "exec evs p = Some p'" "pool_inv p"
  shows "pool_inv p'"
  using assms
proof (induction evs arbitrary: p)
  case Nil
  then show ?case by simp
next
  case (Cons ev evs)
  from Cons.prems(1) obtain q where q: "fire ev p = Some q" "exec evs q = Some p'"
    by (auto split: option.splits)
  from Cons.prems(2) q(1) have "pool_inv q" by (rule pool_inv_fire)
  with q(2) show ?case by (rule Cons.IH)
qed

lemma reachable_inv:
  assumes "ThreadPool n a b = Inr p" "exec evs p = Some p'"
  shows "pool_inv p'"
  using assms(2) pool_inv_init [OF assms(1)] by (rule pool_inv_exec)

section \<open>Following one task through the pool\<close>

lemma track_update_same:
  assumes "track t p" "i < length (threads p)" "running w = running (threads p ! i)"
    "w \<noteq> Exited" "threads p' = (threads p)[i := w]" "tasks p' = tasks p"
    "finished p' = finished p"
  shows "track t p'"
proof -
  have r: "running (threads p' ! j) = running (threads p ! j)" if "j < length (threads p)" for j
    using that assms(2,3,5) by (cases "j = i") simp_all
  from assms(1) consider
    (queued) "t \<in> set (tasks p)" |
    (held) j where "j < length (threads p)" "running (threads p ! j) = Some t" |
    (returned) "t \<in> set (finished p)"
    unfolding track_def by blast
  then show ?thesis
  proof cases
    case queued
    have "threads p' ! i \<noteq> Exited" using assms(2,4,5) by simp
    with queued assms(2,5,6) show ?thesis unfolding track_def by auto
  next
    case (held j)
    with r [OF held(1)] have "running (threads p' ! j) = Some t" by simp
    with held(1) assms(5) show ?thesis unfolding track_def by auto
  next
    case returned
    with assms(7) show ?thesis unfolding track_def by simp
  qed
qed

lemma track_worker:
  assumes "loop_inv p" "track t p" "worker_step i p = Some p'"
  shows "track t p'"
  using assms(3,1)
proof (cases rule: worker_step_loopE)
  case start
  then have "running (AtLock) = running (threads p ! i)" "AtLock \<noteq> Exited"
    "threads p' = (threads p)[i := AtLock]" "tasks p' = tasks p" "finished p' = finished p"
    by auto
  with assms(2) start(1) show ?thesis by (rule track_update_same)
next
  case lock
  then have "running (AtPred) = running (threads p ! i)" "AtPred \<noteq> Exited"
    "threads p' = (threads p)[i := AtPred]" "tasks p' = tasks p" "finished p' = finished p"
    by auto
  with assms(2) lock(1) show ?thesis by (rule track_update_same)
next
  case pred_true
  then have "running (AtCheck) = running (threads p ! i)" "AtCheck \<noteq> Exited"
    "threads p' = (threads p)[i := AtCheck]" "tasks p' = tasks p" "finished p' = finished p"
    by auto
  with assms(2) pred_true(1) show ?thesis by (rule track_update_same)
next
  case pred_false
  then have "running (InWait) = running (threads p ! i)" "InWait \<noteq> Exited"
    "threads p' = (threads p)[i := InWait]" "tasks p' = tasks p" "finished p' = finished p"
    by auto
  with assms(2) pred_false(1) show ?thesis by (rule track_update_same)
next
  case leave
  have r: "running (threads p' ! j) = running (threads p ! j)" if "j < length (threads p)" for j
    using that leave by (cases "j = i") simp_all
  from assms(2) leave(3) consider
    (held) j where "j < length (threads p)" "running (threads p ! j) = Some t" |
    (returned) "t \<in> set (finished p)"
    unfolding track_def by auto
  then show ?thesis
  proof cases
    case (held j)
    with r [OF held(1)] have "running (threads p' ! j) = Some t" by simp
    with held(1) leave show ?thesis unfolding track_def by auto
  next
    case returned
    with leave show ?thesis unfolding track_def by simp
  qed
next
  case stay
  then have "running (AtFront) = running (threads p ! i)" "AtFront \<noteq> Exited"
    "threads p' = (threads p)[i := AtFront]" "tasks p' = tasks p" "finished p' = finished p"
    by auto
  with assms(2) stay(1) show ?thesis by (rule track_update_same)
next
  case (pop u q)
  have r: "running (threads p' ! j) = running (threads p ! j)"
    if "j < length (threads p)" "j \<noteq> i" for j
    using that pop by simp
  have here: "threads p' ! i = AtUnlock u" "length (threads p') = length (threads p)"
    using pop by simp_all
  from assms(2) consider
    (queued) "t \<in> set (tasks p)" |
    (held) j where "j < length (threads p)" "running (threads p ! j) = Some t" |
    (returned) "t \<in> set (finished p)"
    unfolding track_def by blast
  then show ?thesis
  proof cases
    case queued
    show ?thesis
    proof (cases "t = u")
      case True
      with here pop(1) have "i < length (threads p') \<and> running (threads p' ! i) = Some t"
        by simp
      then show ?thesis unfolding track_def by blast
    next
      case False
      with queued pop have "t \<in> set (tasks p')" by simp
      moreover from here pop(1) have "i < length (threads p') \<and> threads p' ! i \<noteq> Exited"
        by simp
      ultimately show ?thesis unfolding track_def by blast
    qed
  next
    case (held j)
    with pop have "j \<noteq> i" by auto
    with r [OF held(1)] held have "j < length (threads p') \<and> running (threads p' ! j) = Some t"
      using here by simp
    then show ?thesis unfolding track_def by blast
  next
    case returned
    with pop show ?thesis unfolding track_def by simp
  qed
next
  case (unlock u)
  then have "running (AtCall u) = running (threads p ! i)" "AtCall u \<noteq> Exited"
    "threads p' = (threads p)[i := AtCall u]" "tasks p' = tasks p" "finished p' = finished p"
    by auto
  with assms(2) unlock(1) show ?thesis by (rule track_update_same)
next
  case (call u)
  have r: "running (threads p' ! j) = running (threads p ! j)"
    if "j < length (threads p)" "j \<noteq> i" for j
    using that call by simp
  have here: "threads p' ! i = AtLock" "length (threads p') = length (threads p)"
    "finished p' = finished p @ [u]" "tasks p' = tasks p"
    using call by simp_all
  from assms(2) consider
    (queued) "t \<in> set (tasks p)" |
    (held) j where "j < length (threads p)" "running (threads p ! j) = Some t" |
    (returned) "t \<in> set (finished p)"
    unfolding track_def by blast
  then show ?thesis
  proof cases
    case queued
    with here have "t \<in> set (tasks p')" by simp
    moreover from here call(1) have "i < length (threads p') \<and> threads p' ! i \<noteq> Exited"
      by simp
    ultimately show ?thesis unfolding track_def by blast
  next
    case (held j)
    show ?thesis
    proof (cases "j = i")
      case True
      with held call have "t = u" by simp
      with here show ?thesis unfolding track_def by simp
    next
      case False
      with r [OF held(1)] held here
      have "j < length (threads p') \<and> running (threads p' ! j) = Some t" by simp
      then show ?thesis unfolding track_def by blast
    qed
  next
    case returned
    with here show ?thesis unfolding track_def by simp
  qed
qed

lemma track_frame:
  assumes "track t p" "threads p' = threads p" "finished p' = finished p"
    "set (tasks p) \<subseteq> set (tasks p')"
  shows "track t p'"
proof -
  from assms(1) consider
    (queued) "t \<in> set (tasks p)" "\<exists>i < length (threads p). threads p ! i \<noteq> Exited" |
    (held) j where "j < length (threads p)" "running (threads p ! j) = Some t" |
    (returned) "t \<in> set (finished p)"
    unfolding track_def by blast
  then show ?thesis
  proof cases
    case queued
    from queued(1) assms(4) have "t \<in> set (tasks p')" by blast
    with queued(2) show ?thesis unfolding track_def assms(2) by blast
  next
    case (held j)
    then show ?thesis unfolding track_def assms(2) by blast
  next
    case returned
    then show ?thesis unfolding track_def assms(3) by blast
  qed
qed

lemma track_fire:
  assumes "pool_inv p" "track t p" "fire ev p = Some p'"
  shows "track t p'"
proof (cases ev)
  case (Worker i)
  with assms(3) have "worker_step i p = Some p'" by simp
  moreover from assms(1) have "loop_inv p" by (simp add: pool_inv_def)
  ultimately show ?thesis using assms(2) track_worker by blast
next
  case (Submit f)
  with assms(3) have
    "p' = p\<lparr> tasks := tasks p @ [Task (length (channels p)) f],
              channels := channels p @ [Pending] \<rparr>"
    by (auto simp: Enqueue_def split: if_splits)
  then have "threads p' = threads p" "finished p' = finished p"
    "set (tasks p) \<subseteq> set (tasks p')" by auto
  with assms(2) show ?thesis by (rule track_frame)
next
  case Destruct
  with assms(3) have "p' = p\<lparr> is_terminated := True, dtor := Joining \<rparr>"
    by (auto simp: destruct_def split: if_splits)
  then have "threads p' = threads p" "finished p' = finished p"
    "set (tasks p) \<subseteq> set (tasks p')" by auto
  with assms(2) show ?thesis by (rule track_frame)
next
  case Join
  with assms(3) have "p' = p\<lparr> dtor := Destroyed \<rparr>"
    by (auto simp: join_all_def split: if_splits)
  then have "threads p' = threads p" "finished p' = finished p"
    "set (tasks p) \<subseteq> set (tasks p')" by auto
  with assms(2) show ?thesis by (rule track_frame)
qed

lemma track_exec:
  assumes "exec evs p = Some p'" "pool_inv p" "track t p"
  shows "track t p'"
  using assms
proof (induction evs arbitrary: p)
  case Nil
  then show ?case by simp
next
  case (Cons ev evs)
  from Cons.prems(1) obtain q where q: "fire ev p = Some q" "exec evs q = Some p'"
    by (auto split: option.splits)
  from Cons.prems(2) q(1) have "pool_inv q" by (rule pool_inv_fire)
  moreover from Cons.prems(2,3) q(1) have "track t q" by (rule track_fire)
  ultimately show ?case using q(2) Cons.IH by blast
qed

lemma track_enqueue:
  assumes "Enqueue f p = Some (p', h)" "i < length (threads p)" "threads p ! i \<noteq> Exited"
  shows "track (Task h f) p'"
proof -
  from assms(1) have "h = length (channels p)"
    "p' = p\<lparr> tasks := tasks p @ [Task (length (channels p)) f],
              channels := channels p @ [Pending] \<rparr>"
    by (auto simp: Enqueue_def split: if_splits)
  then have "Task h f \<in> set (tasks p')" "threads p' = threads p" by simp_all
  with assms(2,3) show ?thesis unfolding track_def by metis
qed

text \<open>What the channel of a tracked task holds.\<close>

lemma track_channel:
  assumes "pool_inv p" "track t p"
  shows "(t \<notin> set (finished p) \<and> channels p ! chan t = Pending) \<or>
         (t \<in> set (finished p) \<and> channels p ! chan t = deliver (body t ()))"
proof -
  from assms(1) have ok: "chan_ok (tasks p) (channels p) (finished p) (map running (threads p))"
    by (simp add: pool_inv_def chan_inv_def)
  from assms(2) consider
    (queued) "t \<in> set (tasks p)" |
    (held) j where "j < length (threads p)" "running (threads p ! j) = Some t" |
    (returned) "t \<in> set (finished p)"
    unfolding track_def by blast
  then show ?thesis
  proof cases
    case queued
    with ok have "channels p ! chan t = Pending" "\<forall>u \<in> set (finished p). chan u \<noteq> chan t"
      unfolding chan_ok_def by blast+
    then show ?thesis by blast
  next
    case (held j)
    then have "j < length (map running (threads p))" "map running (threads p) ! j = Some t"
      by simp_all
    with ok have "channels p ! chan t = Pending" "\<forall>u \<in> set (finished p). chan u \<noteq> chan t"
      unfolding chan_ok_def by blast+
    then show ?thesis by blast
  next
    case returned
    with ok have "channels p ! chan t = deliver (body t ())"
      unfolding chan_ok_def by blast
    with returned show ?thesis by blast
  qed
qed

section \<open>Progress: a submitted task is run\<close>

lemma weight_update:
  assumes "i < length ws" "rank w < rank (ws ! i)"
  shows "sum_list (map rank (ws[i := w])) < sum_list (map rank ws)"
  using assms
proof (induction ws arbitrary: i)
  case Nil
  then show ?case by simp
next
  case (Cons a ws)
  then show ?case by (cases i) auto
qed

lemma progress_worker:
  assumes "pool_inv p" "tasks p \<noteq> [] \<or> is_terminated p" "k < length (threads p)"
    "m_task p = Some k \<or> (m_task p = None \<and> threads p ! k \<noteq> Exited)"
  shows "\<exists>p'. worker_step k p = Some p' \<and>
           (weight p', weight p) \<in> less_than <*lex*> less_than"
proof -
  from assms(1) have li: "lock_inv p" and lo: "loop_inv p" by (simp_all add: pool_inv_def)
  from li assms(3) have hl: "holds_lock (threads p ! k) = (m_task p = Some k)"
    by (simp add: lock_inv_def)
  from lo assms(3) have na: "threads p ! k \<noteq> Aborted" "threads p ! k \<noteq> AtStop"
    by (simp_all add: loop_inv_def)
  have nk: "\<not> length (threads p) \<le> k" using assms(3) by simp
  show ?thesis
  proof (cases "threads p ! k")
    case AtStart
    then have "worker_step k p =
        Some (p\<lparr> threads := (threads p)[k := AtLock],
                 start_calls := (if on_thread_start p then bump k (start_calls p)
                                 else start_calls p) \<rparr>)"
      using nk by (simp add: worker_step_def)
    moreover have "sum_list (map rank ((threads p)[k := AtLock])) < sum_list (map rank (threads p))"
      using assms(3) AtStart by (intro weight_update) simp_all
    ultimately show ?thesis by (simp add: weight_def)
  next
    case AtLock
    with hl assms(4) have "m_task p = None" by auto
    with AtLock have "worker_step k p =
        Some (p\<lparr> m_task := Some k, threads := (threads p)[k := AtPred] \<rparr>)"
      using nk by (simp add: worker_step_def)
    moreover have "sum_list (map rank ((threads p)[k := AtPred])) < sum_list (map rank (threads p))"
      using assms(3) AtLock by (intro weight_update) simp_all
    ultimately show ?thesis by (simp add: weight_def)
  next
    case InWait
    with hl assms(4) have "m_task p = None" by auto
    with InWait have "worker_step k p =
        Some (p\<lparr> m_task := Some k, threads := (threads p)[k := AtPred] \<rparr>)"
      using nk by (simp add: worker_step_def)
    moreover have "sum_list (map rank ((threads p)[k := AtPred])) < sum_list (map rank (threads p))"
      using assms(3) InWait by (intro weight_update) simp_all
    ultimately show ?thesis by (simp add: weight_def)
  next
    case AtPred
    with assms(2) have "worker_step k p = Some (p\<lparr> threads := (threads p)[k := AtCheck] \<rparr>)"
      using nk by (simp add: worker_step_def)
    moreover have "sum_list (map rank ((threads p)[k := AtCheck])) < sum_list (map rank (threads p))"
      using assms(3) AtPred by (intro weight_update) simp_all
    ultimately show ?thesis by (simp add: weight_def)
  next
    case AtCheck
    show ?thesis
    proof (cases "tasks p = [] \<and> is_terminated p")
      case True
      with AtCheck have "worker_step k p =
          Some (p\<lparr> m_task := None, threads := (threads p)[k := Exited] \<rparr>)"
        using nk by (simp add: worker_step_def)
      moreover have "sum_list (map rank ((threads p)[k := Exited])) < sum_list (map rank (threads p))"
        using assms(3) AtCheck by (intro weight_update) simp_all
      ultimately show ?thesis by (simp add: weight_def)
    next
      case False
      with AtCheck have "worker_step k p = Some (p\<lparr> threads := (threads p)[k := AtFront] \<rparr>)"
        using nk by (auto simp: worker_step_def)
      moreover have "sum_list (map rank ((threads p)[k := AtFront])) < sum_list (map rank (threads p))"
        using assms(3) AtCheck by (intro weight_update) simp_all
      ultimately show ?thesis by (simp add: weight_def)
    qed
  next
    case AtFront
    with lo assms(3) have "tasks p \<noteq> []" by (simp add: loop_inv_def)
    then obtain t q where tq: "tasks p = t # q" by (cases "tasks p") auto
    with AtFront have "worker_step k p =
        Some (p\<lparr> tasks := q, threads := (threads p)[k := AtUnlock t] \<rparr>)"
      using nk by (simp add: worker_step_def)
    with tq show ?thesis by (simp add: weight_def)
  next
    case (AtUnlock t)
    then have "worker_step k p =
        Some (p\<lparr> m_task := None, threads := (threads p)[k := AtCall t] \<rparr>)"
      using nk by (simp add: worker_step_def)
    moreover have "sum_list (map rank ((threads p)[k := AtCall t])) < sum_list (map rank (threads p))"
      using assms(3) AtUnlock by (intro weight_update) simp_all
    ultimately show ?thesis by (simp add: weight_def)
  next
    case (AtCall t)
    have "run_task t (channels p) = ((channels p)[chan t := deliver (body t ())], None)"
      using run_task_fst [of t "channels p"] run_task_snd [of t "channels p"]
      by (cases "run_task t (channels p)") simp
    with AtCall have "worker_step k p =
        Some (p\<lparr> channels := (channels p)[chan t := deliver (body t ())],
                 threads := (threads p)[k := AtLock], finished := finished p @ [t] \<rparr>)"
      using nk by (simp add: worker_step_def)
    moreover have "sum_list (map rank ((threads p)[k := AtLock])) < sum_list (map rank (threads p))"
      using assms(3) AtCall by (intro weight_update) simp_all
    ultimately show ?thesis by (simp add: weight_def)
  next
    case AtStop
    with na show ?thesis by simp
  next
    case Exited
    with hl assms(4) show ?thesis by auto
  next
    case Aborted
    with na show ?thesis by simp
  qed
qed

lemma progress_step:
  assumes "pool_inv p" "tasks p \<noteq> [] \<or> is_terminated p" "i < length (threads p)"
    "threads p ! i \<noteq> Exited"
  shows "\<exists>k p'. worker_step k p = Some p' \<and>
           (weight p', weight p) \<in> less_than <*lex*> less_than"
proof (cases "m_task p")
  case None
  with assms progress_worker [of p i] show ?thesis by blast
next
  case (Some k)
  with assms(1) have "k < length (threads p)" by (simp add: pool_inv_def lock_inv_def)
  with Some assms(1,2) progress_worker [of p k] show ?thesis by blast
qed

lemma call_finishes:
  assumes "j < length (threads p)" "threads p ! j = AtCall t"
  shows "\<exists>p'. worker_step j p = Some p' \<and> t \<in> set (finished p')"
proof -
  have "run_task t (channels p) = ((channels p)[chan t := deliver (body t ())], None)"
    using run_task_fst [of t "channels p"] run_task_snd [of t "channels p"]
    by (cases "run_task t (channels p)") simp
  with assms have "worker_step j p =
      Some (p\<lparr> channels := (channels p)[chan t := deliver (body t ())],
               threads := (threads p)[j := AtLock], finished := finished p @ [t] \<rparr>)"
    by (simp add: worker_step_def)
  then show ?thesis by simp
qed

lemma held_finishes:
  assumes "j < length (threads p)" "running (threads p ! j) = Some t"
  shows "\<exists>ks p'. exec (map Worker ks) p = Some p' \<and> t \<in> set (finished p')"
proof (cases "threads p ! j")
  case (AtUnlock u)
  with assms(2) have u: "u = t" by simp
  from AtUnlock assms(1) have s1: "worker_step j p =
      Some (p\<lparr> m_task := None, threads := (threads p)[j := AtCall u] \<rparr>)"
    by (simp add: worker_step_def)
  let ?p1 = "p\<lparr> m_task := None, threads := (threads p)[j := AtCall u] \<rparr>"
  from assms(1) have "j < length (threads ?p1)" "threads ?p1 ! j = AtCall u" by simp_all
  then obtain p2 where s2: "worker_step j ?p1 = Some p2" "u \<in> set (finished p2)"
    using call_finishes by blast
  from s1 s2 have "exec (map Worker [j, j]) p = Some p2" by simp
  with s2(2) u show ?thesis by blast
next
  case (AtCall u)
  with assms(2) have u: "u = t" by simp
  from AtCall assms(1) obtain p1 where "worker_step j p = Some p1" "u \<in> set (finished p1)"
    using call_finishes by blast
  then have "exec (map Worker [j]) p = Some p1" by simp
  with \<open>u \<in> set (finished p1)\<close> u show ?thesis by blast
qed (use assms(2) in simp_all)

lemma eventually_finished:
  assumes "pool_inv p" "track t p"
  shows "\<exists>ks p'. exec (map Worker ks) p = Some p' \<and> t \<in> set (finished p')"
proof -
  have "wf (inv_image (less_than <*lex*> less_than) (weight :: ('a, 'b) pool \<Rightarrow> nat \<times> nat))"
    by (intro wf_inv_image wf_lex_prod wf_less_than)
  then show ?thesis
    using assms
  proof (induction p rule: wf_induct_rule)
    case (less p)
    from less.prems(2) consider
      (queued) i where "t \<in> set (tasks p)" "i < length (threads p)" "threads p ! i \<noteq> Exited" |
      (held) j where "j < length (threads p)" "running (threads p ! j) = Some t" |
      (returned) "t \<in> set (finished p)"
      unfolding track_def by blast
    then show ?case
    proof cases
      case (queued i)
      from queued(1) have "tasks p \<noteq> [] \<or> is_terminated p" by auto
      with less.prems(1) queued(2,3) obtain k p1 where
        k: "worker_step k p = Some p1"
        "(weight p1, weight p) \<in> less_than <*lex*> less_than"
        using progress_step by blast
      from less.prems(1) k(1) have i1: "pool_inv p1" by (rule pool_inv_worker)
      from less.prems(1) have "loop_inv p" by (simp add: pool_inv_def)
      from this less.prems(2) k(1) have t1: "track t p1" by (rule track_worker)
      from k(2) have "(p1, p) \<in> inv_image (less_than <*lex*> less_than) weight" by simp
      from less.IH [OF this i1 t1] obtain ks p' where
        "exec (map Worker ks) p1 = Some p'" "t \<in> set (finished p')" by blast
      with k(1) have "exec (map Worker (k # ks)) p = Some p'" by simp
      with \<open>t \<in> set (finished p')\<close> show ?thesis by blast
    next
      case (held j)
      then show ?thesis by (rule held_finishes)
    next
      case returned
      have "exec (map Worker []) p = Some p" by simp
      with returned show ?thesis by blast
    qed
  qed
qed

lemma future_get_deliver: "future_get (deliver r) = Some r"
  by (cases r) simp_all

section \<open>Progress: teardown completes\<close>

lemma exec_append:
  "exec (xs @ ys) p = (case exec xs p of None \<Rightarrow> None | Some q \<Rightarrow> exec ys q)"
  by (induction xs arbitrary: p) (auto split: option.splits)

lemma worker_step_frame:
  assumes "worker_step i p = Some p'"
  shows "dtor p' = dtor p \<and> is_terminated p' = is_terminated p \<and>
         length (threads p') = length (threads p)"
  using assms by (cases rule: worker_stepE) simp_all

lemma workers_frame:
  assumes "exec (map Worker ks) p = Some p'"
  shows "dtor p' = dtor p \<and> is_terminated p' = is_terminated p"
  using assms
proof (induction ks arbitrary: p)
  case Nil
  then show ?case by simp
next
  case (Cons k ks)
  from Cons.prems obtain q where q: "worker_step k p = Some q" "exec (map Worker ks) q = Some p'"
    by (auto split: option.splits)
  from Cons.IH [OF q(2)] worker_step_frame [OF q(1)] show ?case by simp
qed

text \<open>The owner of the mutex reaches its unlock, its wait or its return.\<close>

lemma release_unlock:
  assumes "i < length (threads p)" "threads p ! i = AtUnlock t"
  shows "\<exists>ks p'. exec (map Worker ks) p = Some p' \<and> m_task p' = None"
proof -
  from assms have "worker_step i p =
      Some (p\<lparr> m_task := None, threads := (threads p)[i := AtCall t] \<rparr>)"
    by (simp add: worker_step_def)
  then have "exec (map Worker [i]) p =
      Some (p\<lparr> m_task := None, threads := (threads p)[i := AtCall t] \<rparr>)" by simp
  moreover have "m_task (p\<lparr> m_task := None, threads := (threads p)[i := AtCall t] \<rparr>) = None"
    by simp
  ultimately show ?thesis by blast
qed

lemma release_front:
  assumes "i < length (threads p)" "threads p ! i = AtFront" "tasks p \<noteq> []"
  shows "\<exists>ks p'. exec (map Worker ks) p = Some p' \<and> m_task p' = None"
proof -
  from assms(3) obtain t q where tq: "tasks p = t # q" by (cases "tasks p") auto
  let ?p1 = "p\<lparr> tasks := q, threads := (threads p)[i := AtUnlock t] \<rparr>"
  from assms(1,2) tq have s1: "worker_step i p = Some ?p1"
    by (simp add: worker_step_def)
  from assms(1) have "i < length (threads ?p1)" "threads ?p1 ! i = AtUnlock t" by simp_all
  then obtain ks p' where r: "exec (map Worker ks) ?p1 = Some p'" "m_task p' = None"
    using release_unlock by blast
  from s1 r(1) have "exec (map Worker (i # ks)) p = Some p'" by simp
  with r(2) show ?thesis by blast
qed

lemma release_check:
  assumes "i < length (threads p)" "threads p ! i = AtCheck"
    "tasks p \<noteq> [] \<or> is_terminated p"
  shows "\<exists>ks p'. exec (map Worker ks) p = Some p' \<and> m_task p' = None"
proof (cases "tasks p = [] \<and> is_terminated p")
  case True
  with assms(1,2) have "worker_step i p =
      Some (p\<lparr> m_task := None, threads := (threads p)[i := Exited] \<rparr>)"
    by (simp add: worker_step_def)
  then have "exec (map Worker [i]) p =
      Some (p\<lparr> m_task := None, threads := (threads p)[i := Exited] \<rparr>)" by simp
  moreover have "m_task (p\<lparr> m_task := None, threads := (threads p)[i := Exited] \<rparr>) = None"
    by simp
  ultimately show ?thesis by blast
next
  case False
  let ?p1 = "p\<lparr> threads := (threads p)[i := AtFront] \<rparr>"
  from False assms(1,2) have s1: "worker_step i p = Some ?p1"
    by (auto simp: worker_step_def)
  from False assms(3) have "tasks p \<noteq> []" by blast
  with assms(1) have "i < length (threads ?p1)" "threads ?p1 ! i = AtFront" "tasks ?p1 \<noteq> []"
    by simp_all
  then obtain ks p' where r: "exec (map Worker ks) ?p1 = Some p'" "m_task p' = None"
    using release_front by blast
  from s1 r(1) have "exec (map Worker (i # ks)) p = Some p'" by simp
  with r(2) show ?thesis by blast
qed

lemma release_pred:
  assumes "i < length (threads p)" "threads p ! i = AtPred"
  shows "\<exists>ks p'. exec (map Worker ks) p = Some p' \<and> m_task p' = None"
proof (cases "tasks p \<noteq> [] \<or> is_terminated p")
  case True
  let ?p1 = "p\<lparr> threads := (threads p)[i := AtCheck] \<rparr>"
  from True assms have s1: "worker_step i p = Some ?p1"
    by (simp add: worker_step_def)
  from True assms(1) have "i < length (threads ?p1)" "threads ?p1 ! i = AtCheck"
    "tasks ?p1 \<noteq> [] \<or> is_terminated ?p1"
    by simp_all
  then obtain ks p' where r: "exec (map Worker ks) ?p1 = Some p'" "m_task p' = None"
    using release_check by blast
  from s1 r(1) have "exec (map Worker (i # ks)) p = Some p'" by simp
  with r(2) show ?thesis by blast
next
  case False
  with assms have "worker_step i p =
      Some (p\<lparr> m_task := None, threads := (threads p)[i := InWait] \<rparr>)"
    by (simp add: worker_step_def)
  then have "exec (map Worker [i]) p =
      Some (p\<lparr> m_task := None, threads := (threads p)[i := InWait] \<rparr>)" by simp
  moreover have "m_task (p\<lparr> m_task := None, threads := (threads p)[i := InWait] \<rparr>) = None"
    by simp
  ultimately show ?thesis by blast
qed

lemma mutex_released:
  assumes "pool_inv p"
  shows "\<exists>ks p'. exec (map Worker ks) p = Some p' \<and> m_task p' = None"
proof (cases "m_task p")
  case None
  have "exec (map Worker []) p = Some p" by simp
  with None show ?thesis by blast
next
  case (Some i)
  from assms have li: "lock_inv p" and lo: "loop_inv p" by (simp_all add: pool_inv_def)
  from li Some have i: "i < length (threads p)" by (simp add: lock_inv_def)
  with li Some have hl: "holds_lock (threads p ! i)" by (simp add: lock_inv_def)
  show ?thesis
  proof (cases "threads p ! i")
    case AtPred
    with i show ?thesis by (rule release_pred)
  next
    case AtCheck
    with lo i have "tasks p \<noteq> [] \<or> is_terminated p" by (simp add: loop_inv_def)
    with i AtCheck show ?thesis by (rule release_check)
  next
    case AtFront
    with lo i have "tasks p \<noteq> []" by (simp add: loop_inv_def)
    with i AtFront show ?thesis by (rule release_front)
  next
    case (AtUnlock t)
    with i show ?thesis by (rule release_unlock)
  qed (use hl in simp_all)
qed

text \<open>Once the flag is set, the workers can drain the queue and return.\<close>

lemma workers_return:
  assumes "pool_inv p" "is_terminated p"
  shows "\<exists>ks p'. exec (map Worker ks) p = Some p' \<and>
           (\<forall>i < length (threads p'). threads p' ! i = Exited)"
proof -
  have "wf (inv_image (less_than <*lex*> less_than) (weight :: ('a, 'b) pool \<Rightarrow> nat \<times> nat))"
    by (intro wf_inv_image wf_lex_prod wf_less_than)
  then show ?thesis
    using assms
  proof (induction p rule: wf_induct_rule)
    case (less p)
    show ?case
    proof (cases "\<forall>i < length (threads p). threads p ! i = Exited")
      case True
      have "exec (map Worker []) p = Some p" by simp
      with True show ?thesis by blast
    next
      case False
      then obtain i where i: "i < length (threads p)" "threads p ! i \<noteq> Exited" by blast
      from less.prems(2) have "tasks p \<noteq> [] \<or> is_terminated p" by simp
      with less.prems(1) i obtain k p1 where
        k: "worker_step k p = Some p1"
        "(weight p1, weight p) \<in> less_than <*lex*> less_than"
        using progress_step by blast
      from less.prems(1) k(1) have i1: "pool_inv p1" by (rule pool_inv_worker)
      from worker_step_frame [OF k(1)] less.prems(2) have t1: "is_terminated p1" by simp
      from k(2) have "(p1, p) \<in> inv_image (less_than <*lex*> less_than) weight" by simp
      from less.IH [OF this i1 t1] obtain ks p' where
        r: "exec (map Worker ks) p1 = Some p'"
        "\<forall>i < length (threads p'). threads p' ! i = Exited" by blast
      from k(1) r(1) have "exec (map Worker (k # ks)) p = Some p'" by simp
      with r(2) show ?thesis by blast
    qed
  qed
qed

lemma joining_completes:
  assumes "pool_inv p" "dtor p = Joining"
  shows "\<exists>evs p'. exec evs p = Some p' \<and> dtor p' = Destroyed"
proof -
  from assms have "is_terminated p" by (auto simp: pool_inv_def dtor_inv_def)
  with assms(1) obtain ks p1 where
    r: "exec (map Worker ks) p = Some p1"
    "\<forall>i < length (threads p1). threads p1 ! i = Exited"
    using workers_return by blast
  from workers_frame [OF r(1)] assms(2) have "dtor p1 = Joining" by simp
  moreover from r(2) have "list_all (\<lambda>w. w = Exited) (threads p1)"
    by (simp add: list_all_length)
  ultimately have "join_all p1 = Some (p1\<lparr> dtor := Destroyed \<rparr>)" by (simp add: join_all_def)
  then have "exec [Join] p1 = Some (p1\<lparr> dtor := Destroyed \<rparr>)" by simp
  with r(1) have "exec (map Worker ks @ [Join]) p = Some (p1\<lparr> dtor := Destroyed \<rparr>)"
    by (simp add: exec_append)
  moreover have "dtor (p1\<lparr> dtor := Destroyed \<rparr>) = Destroyed" by simp
  ultimately show ?thesis by blast
qed

lemma teardown_completes:
  assumes "pool_inv p"
  shows "\<exists>evs p'. exec evs p = Some p' \<and> dtor p' = Destroyed"
proof (cases "dtor p")
  case Alive
  from assms obtain ks p1 where r: "exec (map Worker ks) p = Some p1" "m_task p1 = None"
    using mutex_released by blast
  from r(1) assms have i1: "pool_inv p1" by (rule pool_inv_exec)
  from workers_frame [OF r(1)] Alive have "dtor p1 = Alive" by simp
  with r(2) have d: "destruct p1 = Some (p1\<lparr> is_terminated := True, dtor := Joining \<rparr>)"
    by (simp add: destruct_def)
  let ?p2 = "p1\<lparr> is_terminated := True, dtor := Joining \<rparr>"
  from i1 d have "pool_inv ?p2" by (rule pool_inv_destruct)
  moreover have "dtor ?p2 = Joining" by simp
  ultimately obtain evs p' where e: "exec evs ?p2 = Some p'" "dtor p' = Destroyed"
    using joining_completes by blast
  from d e(1) have "exec (Destruct # evs) p1 = Some p'" by simp
  with r(1) have "exec (map Worker ks @ Destruct # evs) p = Some p'"
    by (simp add: exec_append)
  with e(2) show ?thesis by blast
next
  case Joining
  with assms show ?thesis by (rule joining_completes)
next
  case Destroyed
  have "exec [] p = Some p" by simp
  with Destroyed show ?thesis by blast
qed

lemma enqueue_tracked:
  assumes "ThreadPool n on_start on_stop = Inr p0" "exec evs p0 = Some p"
    "i < length (threads p)" "threads p ! i \<noteq> Exited"
    "Enqueue g p = Some (p1, h)" "exec evs1 p1 = Some p2"
  shows "pool_inv p2 \<and> track (Task h g) p2"
proof -
  from assms(1,2) have "pool_inv p" by (rule reachable_inv)
  from this assms(5) have i1: "pool_inv p1" by (rule pool_inv_enqueue)
  from assms(5,3,4) have "track (Task h g) p1" by (rule track_enqueue)
  with assms(6) i1 have "track (Task h g) p2" by (rule track_exec)
  moreover from assms(6) i1 have "pool_inv p2" by (rule pool_inv_exec)
  ultimately show ?thesis by simp
qed

section \<open>The claims about construction and the worker loop\<close>

lemmas step_defs = worker_step_def Enqueue_def destruct_def join_all_def run_task_def bump_def

text \<open>
  Claim C5: constructing a pool with a thread count of zero fails, at once and in the
  caller, with the error of the constructor's guard (a \<open>std::runtime_error\<close> with the
  message below); the result is the error and not a pool, so no worker exists.
\<close>

theorem ctor_zero_fails:
  "ThreadPool 0 on_start on_stop =
     Inl (RuntimeError ''The number of threads must be larger than 0.'')"
  by (simp add: ThreadPool_def)

theorem ctor_zero_fails_witness:
  "(ThreadPool 0 True False :: ctor_error + (int, string) pool) =
     Inl (RuntimeError ''The number of threads must be larger than 0.'')"
  using ctor_zero_fails [of True False] by simp

text \<open>
  Claim C6: in every reachable state a worker that is at the call of a task (line 35)
  does not own the mutex: it popped the task and unlocked before the call.
\<close>

theorem no_call_under_lock:
  assumes "ThreadPool n on_start on_stop = Inr p0" "exec evs p0 = Some p"
    "i < length (threads p)" "threads p ! i = AtCall t"
  shows "m_task p \<noteq> Some i"
proof -
  from assms(1,2) have "pool_inv p" by (rule reachable_inv)
  then have "lock_inv p" by (simp add: pool_inv_def)
  with assms(3,4) show ?thesis by (auto simp: lock_inv_def)
qed

theorem no_call_under_lock_witness:
  "case (ThreadPool 1 False False :: ctor_error + (int, string) pool) of
     Inl e \<Rightarrow> False
   | Inr p0 \<Rightarrow>
       (case exec [Submit (\<lambda>_. Returns 12), Worker 0, Worker 0, Worker 0, Worker 0,
                   Worker 0, Worker 0] p0 of
          None \<Rightarrow> False
        | Some p \<Rightarrow> threads p = [AtCall (Task 0 (\<lambda>_. Returns 12))] \<and> m_task p \<noteq> Some 0)"
proof -
  obtain p0 :: "(int, string) pool" where a: "ThreadPool 1 False False = Inr p0"
    by (simp add: ThreadPool_def)
  then obtain p where b: "exec [Submit (\<lambda>_. Returns 12), Worker 0, Worker 0, Worker 0,
      Worker 0, Worker 0, Worker 0] p0 = Some p"
    and c: "threads p = [AtCall (Task 0 (\<lambda>_. Returns 12))]"
    by (auto simp: ThreadPool_def step_defs)
  from c have "0 < length (threads p)" "threads p ! 0 = AtCall (Task 0 (\<lambda>_. Returns 12))"
    by simp_all
  with a b have "m_task p \<noteq> Some 0" by (rule no_call_under_lock)
  with a b c show ?thesis by simp
qed

text \<open>
  Claim C8, as stated, fails: the constructor without a thread count has no fallback.
  When the platform reports a hardware concurrency of 0, it fails like \<open>ThreadPool(0)\<close>
  and is not the pool of one worker.
\<close>

theorem default_ctor_no_fallback:
  "(ThreadPool_default 0 False False :: ctor_error + (int, string) pool) =
     Inl (RuntimeError ''The number of threads must be larger than 0.'') \<and>
   (ThreadPool_default 0 False False :: ctor_error + (int, string) pool) \<noteq>
     ThreadPool 1 False False"
  by (simp add: ThreadPool_default_def ThreadPool_def)

text \<open>
  Claim C8, amended: the constructor without a thread count passes the platform's
  hardware concurrency to the other constructor as it is. It fails exactly when that
  value is 0, with the error of the guard; otherwise the pool has that many workers,
  each at the start of its thread function.
\<close>

theorem default_ctor_delegates:
  "ThreadPool_default hw on_start on_stop = ThreadPool hw on_start on_stop \<and>
   (case ThreadPool_default hw on_start on_stop of
      Inl e \<Rightarrow> hw = 0 \<and> e = RuntimeError ''The number of threads must be larger than 0.''
    | Inr p \<Rightarrow> 0 < hw \<and> num_threads p = hw \<and> threads p = replicate hw AtStart)"
  by (simp add: ThreadPool_default_def ThreadPool_def)

theorem default_ctor_delegates_witness:
  "case (ThreadPool_default 4 False False :: ctor_error + (int, string) pool) of
     Inl e \<Rightarrow> False
   | Inr p \<Rightarrow> num_threads p = 4 \<and> threads p = [AtStart, AtStart, AtStart, AtStart]"
  using default_ctor_delegates [of 4 False False, where ?'a = int and ?'b = string]
  by (simp add: ThreadPool_default_def ThreadPool_def numeral_eq_Suc)

text \<open>
  Claim C9 says that every worker calls the stop hook once after it leaves its loop.
  The code does not: the loop is left by the \<open>return\<close> of line 29, which returns from
  the thread function, so lines 38 to 40 are never reached. In every reachable state of
  a pool built with a stop hook, no worker stands at line 38 and no worker has called
  the hook.
\<close>

theorem stop_hook_never_called:
  assumes "ThreadPool n on_start True = Inr p0" "exec evs p0 = Some p" "i < num_threads p"
  shows "stop_calls p ! i = 0 \<and> threads p ! i \<noteq> AtStop"
proof -
  from assms(1,2) have "pool_inv p" by (rule reachable_inv)
  then have "count_inv p" "loop_inv p" by (simp_all add: pool_inv_def)
  with assms(3) show ?thesis by (auto simp: count_inv_def loop_inv_def)
qed

theorem stop_hook_never_called_witness:
  "case (ThreadPool 1 False True :: ctor_error + (int, string) pool) of
     Inl e \<Rightarrow> False
   | Inr p0 \<Rightarrow>
       (case exec [Worker 0, Destruct, Worker 0, Worker 0, Worker 0, Join] p0 of
          None \<Rightarrow> False
        | Some p \<Rightarrow> on_thread_stop p \<and> dtor p = Destroyed \<and> threads p = [Exited] \<and>
            stop_calls p ! 0 = 0)"
proof -
  obtain p0 :: "(int, string) pool" where a: "ThreadPool 1 False True = Inr p0"
    by (simp add: ThreadPool_def)
  then obtain p where b: "exec [Worker 0, Destruct, Worker 0, Worker 0, Worker 0, Join] p0 = Some p"
    and c: "on_thread_stop p" "dtor p = Destroyed" "threads p = [Exited]" "num_threads p = 1"
    by (auto simp: ThreadPool_def step_defs)
  from c have "0 < num_threads p" by simp
  with a b have "stop_calls p ! 0 = 0 \<and> threads p ! 0 \<noteq> AtStop"
    by (rule stop_hook_never_called)
  with a b c show ?thesis by simp
qed

text \<open>
  Claim C10: in every reachable state a worker that stands at \<open>front\<close> and \<open>pop\<close>
  (lines 31 and 32) finds the queue non-empty, and no worker has ever taken the branch
  of the empty queue (or any other way into \<open>Aborted\<close>).
\<close>

theorem front_only_when_nonempty:
  assumes "ThreadPool n on_start on_stop = Inr p0" "exec evs p0 = Some p"
    "i < length (threads p)"
  shows "threads p ! i \<noteq> Aborted \<and> (threads p ! i = AtFront \<longrightarrow> tasks p \<noteq> [])"
proof -
  from assms(1,2) have "pool_inv p" by (rule reachable_inv)
  then have "loop_inv p" by (simp add: pool_inv_def)
  with assms(3) show ?thesis by (auto simp: loop_inv_def)
qed

theorem front_only_when_nonempty_witness:
  "case (ThreadPool 1 False False :: ctor_error + (int, string) pool) of
     Inl e \<Rightarrow> False
   | Inr p0 \<Rightarrow>
       (case exec [Submit (\<lambda>_. Returns 12), Worker 0, Worker 0, Worker 0, Worker 0] p0 of
          None \<Rightarrow> False
        | Some p \<Rightarrow> threads p = [AtFront] \<and> tasks p \<noteq> [])"
proof -
  obtain p0 :: "(int, string) pool" where a: "ThreadPool 1 False False = Inr p0"
    by (simp add: ThreadPool_def)
  then obtain p where b: "exec [Submit (\<lambda>_. Returns 12), Worker 0, Worker 0, Worker 0,
      Worker 0] p0 = Some p"
    and c: "threads p = [AtFront]"
    by (auto simp: ThreadPool_def step_defs)
  from c have "0 < length (threads p)" by simp
  with a b have "threads p ! 0 \<noteq> Aborted \<and> (threads p ! 0 = AtFront \<longrightarrow> tasks p \<noteq> [])"
    by (rule front_only_when_nonempty)
  with a b c show ?thesis by simp
qed

section \<open>The claims about submitted tasks and teardown\<close>

text \<open>
  Claim C2: \<open>Enqueue(f, args...)\<close> on a pool that still has a worker whose thread
  function has not returned, followed by a read of the returned handle. In every later
  state the read either still blocks (the channel is pending) or yields what the direct
  call \<open>f(args...)\<close> yields; and the read does not block for ever: from every later
  state a run of worker steps alone leads to a state in which the read yields that value.
\<close>

theorem enqueue_then_get:
  assumes "ThreadPool n on_start on_stop = Inr p0" "exec evs p0 = Some p"
    "i < length (threads p)" "threads p ! i \<noteq> Exited"
    "Enqueue (\<lambda>_. f args) p = Some (p1, h)" "exec evs1 p1 = Some p2"
  shows "(future_get (channels p2 ! h) = None \<or>
          future_get (channels p2 ! h) = Some (f args)) \<and>
         (\<exists>ks p3. exec (map Worker ks) p2 = Some p3 \<and>
            future_get (channels p3 ! h) = Some (f args))"
proof -
  let ?t = "Task h (\<lambda>_. f args)"
  from assms have i2: "pool_inv p2" and t2: "track ?t p2"
    using enqueue_tracked by blast+
  from track_channel [OF i2 t2]
  have safe: "future_get (channels p2 ! h) = None \<or>
      future_get (channels p2 ! h) = Some (f args)"
    by (auto simp: future_get_deliver)
  from eventually_finished [OF i2 t2] obtain ks p3 where
    r: "exec (map Worker ks) p2 = Some p3" "?t \<in> set (finished p3)" by blast
  from r(1) i2 have i3: "pool_inv p3" by (rule pool_inv_exec)
  from r(1) i2 t2 have "track ?t p3" by (rule track_exec)
  from track_channel [OF i3 this] r(2)
  have "future_get (channels p3 ! h) = Some (f args)"
    by (auto simp: future_get_deliver)
  with r(1) safe show ?thesis by blast
qed

theorem enqueue_then_get_witness:
  "case (ThreadPool 1 False False :: ctor_error + (int, string) pool) of
     Inl e \<Rightarrow> False
   | Inr p0 \<Rightarrow>
       (case Enqueue (\<lambda>_. (\<lambda>(a, b). Returns (a + b)) (5, 7)) p0 of
          None \<Rightarrow> False
        | Some (p1, h) \<Rightarrow>
            (case exec [Worker 0, Worker 0, Worker 0, Worker 0, Worker 0, Worker 0,
                        Worker 0] p1 of
               None \<Rightarrow> False
             | Some p2 \<Rightarrow> future_get (channels p2 ! h) = Some (Returns 12)))"
proof -
  obtain p0 :: "(int, string) pool" where a: "ThreadPool 1 False False = Inr p0"
    and a': "threads p0 = [AtStart]"
    by (simp add: ThreadPool_def)
  have b: "exec [] p0 = Some p0" by simp
  from a obtain p1 h where c: "Enqueue (\<lambda>_. (\<lambda>(a, b). Returns (a + b)) (5, 7)) p0 = Some (p1, h)"
    by (auto simp: ThreadPool_def step_defs)
  with a obtain p2 where d: "exec [Worker 0, Worker 0, Worker 0, Worker 0, Worker 0, Worker 0,
      Worker 0] p1 = Some p2"
    and e: "future_get (channels p2 ! h) = Some (Returns 12)"
    by (auto simp: ThreadPool_def step_defs)
  from a' have "0 < length (threads p0)" "threads p0 ! 0 \<noteq> Exited" by simp_all
  from enqueue_then_get [where f = "\<lambda>(a, b). Returns (a + b)" and args = "(5, 7)",
      OF a b this c d]
  have "future_get (channels p2 ! h) = None \<or>
      future_get (channels p2 ! h) = Some ((\<lambda>(a, b). Returns (a + b)) (5, 7))" ..
  with a c d e show ?thesis by simp
qed

text \<open>
  Claim C3: a callable submitted with \<open>Enqueue\<close> that raises the failure \<open>e\<close>. Its
  channel is pending until it holds the failure \<open>e\<close> itself; no worker is ever
  aborted by a failure that left the call; and from every later state a run of worker
  steps alone leads to a state in which the channel holds \<open>e\<close>, the read of the handle
  raises \<open>e\<close> again in the reader, and still no worker is aborted.
\<close>

theorem failure_reaches_reader:
  assumes "ThreadPool n on_start on_stop = Inr p0" "exec evs p0 = Some p"
    "i < length (threads p)" "threads p ! i \<noteq> Exited"
    "Enqueue g p = Some (p1, h)" "g () = Raises e" "exec evs1 p1 = Some p2"
  shows "(channels p2 ! h = Pending \<or> channels p2 ! h = Failure e) \<and>
         (\<forall>j < length (threads p2). threads p2 ! j \<noteq> Aborted) \<and>
         (\<exists>ks p3. exec (map Worker ks) p2 = Some p3 \<and> channels p3 ! h = Failure e \<and>
            future_get (channels p3 ! h) = Some (Raises e) \<and>
            (\<forall>j < length (threads p3). threads p3 ! j \<noteq> Aborted))"
proof -
  let ?t = "Task h g"
  from assms(1-5,7) have i2: "pool_inv p2" and t2: "track ?t p2"
    using enqueue_tracked by blast+
  from track_channel [OF i2 t2] assms(6)
  have safe: "channels p2 ! h = Pending \<or> channels p2 ! h = Failure e"
    by auto
  from i2 have alive2: "\<forall>j < length (threads p2). threads p2 ! j \<noteq> Aborted"
    by (simp add: pool_inv_def loop_inv_def)
  from eventually_finished [OF i2 t2] obtain ks p3 where
    r: "exec (map Worker ks) p2 = Some p3" "?t \<in> set (finished p3)" by blast
  from r(1) i2 have i3: "pool_inv p3" by (rule pool_inv_exec)
  from r(1) i2 t2 have "track ?t p3" by (rule track_exec)
  from track_channel [OF i3 this] r(2) assms(6)
  have c3: "channels p3 ! h = Failure e" by auto
  then have g3: "future_get (channels p3 ! h) = Some (Raises e)" by simp
  from i3 have alive3: "\<forall>j < length (threads p3). threads p3 ! j \<noteq> Aborted"
    by (simp add: pool_inv_def loop_inv_def)
  from r(1) c3 g3 alive3
  have "\<exists>ks p3. exec (map Worker ks) p2 = Some p3 \<and> channels p3 ! h = Failure e \<and>
            future_get (channels p3 ! h) = Some (Raises e) \<and>
            (\<forall>j < length (threads p3). threads p3 ! j \<noteq> Aborted)"
    by blast
  with safe alive2 show ?thesis by blast
qed

theorem failure_reaches_reader_witness:
  "case (ThreadPool 1 False False :: ctor_error + (int, string) pool) of
     Inl e \<Rightarrow> False
   | Inr p0 \<Rightarrow>
       (case Enqueue (\<lambda>_. Raises ''Test Exception'') p0 of
          None \<Rightarrow> False
        | Some (p1, h) \<Rightarrow>
            (case exec [Worker 0, Worker 0, Worker 0, Worker 0, Worker 0, Worker 0,
                        Worker 0] p1 of
               None \<Rightarrow> False
             | Some p2 \<Rightarrow> channels p2 ! h = Failure ''Test Exception'' \<and>
                 threads p2 = [AtLock]))"
proof -
  obtain p0 :: "(int, string) pool" where a: "ThreadPool 1 False False = Inr p0"
    and a': "threads p0 = [AtStart]"
    by (simp add: ThreadPool_def)
  have b: "exec [] p0 = Some p0" by simp
  from a obtain p1 h where c: "Enqueue (\<lambda>_. Raises ''Test Exception'') p0 = Some (p1, h)"
    by (auto simp: ThreadPool_def step_defs)
  with a obtain p2 where d: "exec [Worker 0, Worker 0, Worker 0, Worker 0, Worker 0, Worker 0,
      Worker 0] p1 = Some p2"
    and e: "channels p2 ! h \<noteq> Pending" "threads p2 = [AtLock]"
    by (auto simp: ThreadPool_def step_defs)
  from a' have "0 < length (threads p0)" "threads p0 ! 0 \<noteq> Exited" by simp_all
  from failure_reaches_reader [OF a b this c _ d, of "''Test Exception''"]
  have "channels p2 ! h = Pending \<or> channels p2 ! h = Failure ''Test Exception''" by simp
  with a c d e show ?thesis by simp
qed

text \<open>
  Claim C4: in every reachable state, a step that takes a worker's thread function from
  running to returned is that worker's own step at the check of line 28, made while it
  owns the mutex, with the termination flag set and the queue empty. And a task that is
  in the queue while the flag is not yet set (so also when teardown begins) has, in
  every state in which the destructor has finished its joins, been popped and called:
  it is no longer in the queue, its call has returned and its result channel holds what
  its callable yielded. Teardown does finish: from every reachable state a run leads to
  a state in which the destructor has finished its joins.
\<close>

theorem teardown_drains_queue:
  assumes "ThreadPool n on_start on_stop = Inr p0" "exec evs p0 = Some p"
  shows "(\<forall>ev p' i. fire ev p = Some p' \<and> i < length (threads p) \<and>
            threads p ! i \<noteq> Exited \<and> threads p' ! i = Exited \<longrightarrow>
            ev = Worker i \<and> threads p ! i = AtCheck \<and> m_task p = Some i \<and>
            is_terminated p \<and> tasks p = []) \<and>
         (\<forall>t evs1 p1. \<not> is_terminated p \<and> t \<in> set (tasks p) \<and>
            exec evs1 p = Some p1 \<and> dtor p1 = Destroyed \<longrightarrow>
            t \<in> set (finished p1) \<and> t \<notin> set (tasks p1) \<and>
            channels p1 ! chan t = deliver (body t ())) \<and>
         (\<exists>evs1 p1. exec evs1 p = Some p1 \<and> dtor p1 = Destroyed)"
proof (intro conjI allI impI)
  from assms have inv: "pool_inv p" by (rule reachable_inv)
  then have li: "lock_inv p" and lo: "loop_inv p" by (simp_all add: pool_inv_def)
  {
    fix ev p' i
    assume h: "fire ev p = Some p' \<and> i < length (threads p) \<and>
            threads p ! i \<noteq> Exited \<and> threads p' ! i = Exited"
    then have f: "fire ev p = Some p'" and i: "i < length (threads p)"
      and before: "threads p ! i \<noteq> Exited" and after: "threads p' ! i = Exited" by simp_all
    have "ev = Worker i \<and> threads p ! i = AtCheck \<and> is_terminated p \<and> tasks p = []"
    proof (cases ev)
      case (Worker k)
      with f have "worker_step k p = Some p'" by simp
      then show ?thesis using lo
      proof (cases rule: worker_step_loopE)
        case leave
        with i before after have "k = i" by (cases "k = i") simp_all
        with leave Worker show ?thesis by simp
      qed (use i before after in \<open>auto simp: nth_list_update split: if_splits\<close>)
    next
      case (Submit g)
      with f have "threads p' = threads p" by (auto simp: Enqueue_def split: if_splits)
      with before after show ?thesis by simp
    next
      case Destruct
      with f have "threads p' = threads p" by (auto simp: destruct_def split: if_splits)
      with before after show ?thesis by simp
    next
      case Join
      with f have "threads p' = threads p" by (auto simp: join_all_def split: if_splits)
      with before after show ?thesis by simp
    qed
    moreover from this li i have "m_task p = Some i" by (auto simp: lock_inv_def)
    ultimately show "ev = Worker i" "threads p ! i = AtCheck" "m_task p = Some i"
      "is_terminated p" "tasks p = []" by simp_all
  }
  {
    fix t evs1 p1
    assume h: "\<not> is_terminated p \<and> t \<in> set (tasks p) \<and>
            exec evs1 p = Some p1 \<and> dtor p1 = Destroyed"
    from inv have "0 < length (threads p)" by (simp add: pool_inv_def count_inv_def)
    moreover from lo h this have "threads p ! 0 \<noteq> Exited" by (auto simp: loop_inv_def)
    ultimately have "track t p" using h unfolding track_def by blast
    with h inv have t1: "track t p1" and i1: "pool_inv p1"
      using track_exec pool_inv_exec by blast+
    from i1 h have ex: "\<forall>j < length (threads p1). threads p1 ! j = Exited"
      by (simp add: pool_inv_def dtor_inv_def)
    with t1 show fin: "t \<in> set (finished p1)" unfolding track_def by auto
    from i1 have "chan_ok (tasks p1) (channels p1) (finished p1) (map running (threads p1))"
      by (simp add: pool_inv_def chan_inv_def)
    with fin show "t \<notin> set (tasks p1)" unfolding chan_ok_def by blast
    from track_channel [OF i1 t1] fin
    show "channels p1 ! chan t = deliver (body t ())" by blast
  }
  from inv show "\<exists>evs1 p1. exec evs1 p = Some p1 \<and> dtor p1 = Destroyed"
    by (rule teardown_completes)
qed

theorem teardown_drains_queue_witness:
  "case (ThreadPool 1 False False :: ctor_error + (int, string) pool) of
     Inl e \<Rightarrow> False
   | Inr p0 \<Rightarrow>
       (case exec [Submit (\<lambda>_. Returns 12)] p0 of
          None \<Rightarrow> False
        | Some p \<Rightarrow>
            (case exec [Destruct, Worker 0, Worker 0, Worker 0, Worker 0, Worker 0, Worker 0,
                        Worker 0, Worker 0, Worker 0, Worker 0, Join] p of
               None \<Rightarrow> False
             | Some p1 \<Rightarrow> tasks p = [Task 0 (\<lambda>_. Returns 12)] \<and> dtor p1 = Destroyed \<and>
                 Task 0 (\<lambda>_. Returns 12) \<in> set (finished p1) \<and>
                 channels p1 ! 0 = Value 12))"
proof -
  obtain p0 :: "(int, string) pool" where a: "ThreadPool 1 False False = Inr p0"
    by (simp add: ThreadPool_def)
  then obtain p where b: "exec [Submit (\<lambda>_. Returns 12)] p0 = Some p"
    and b': "tasks p = [Task 0 (\<lambda>_. Returns 12)]" "\<not> is_terminated p"
    by (auto simp: ThreadPool_def step_defs)
  with a obtain p1 where c: "exec [Destruct, Worker 0, Worker 0, Worker 0, Worker 0, Worker 0,
      Worker 0, Worker 0, Worker 0, Worker 0, Worker 0, Join] p = Some p1"
    and c': "dtor p1 = Destroyed"
    by (auto simp: ThreadPool_def step_defs)
  from b' have "Task 0 (\<lambda>_. Returns 12) \<in> set (tasks p)" by simp
  with teardown_drains_queue [OF a b] b'(2) c c'
  have "Task 0 (\<lambda>_. Returns 12) \<in> set (finished p1) \<and>
      channels p1 ! chan (Task 0 (\<lambda>_. Returns 12) :: (int, string) task) =
        deliver (body (Task 0 (\<lambda>_. Returns 12) :: (int, string) task) ())" by blast
  with a b b' c c' show ?thesis by simp
qed

section \<open>The partition and \<open>ForEach\<close>\<close>

lemma concat_upt_ranges:
  assumes "\<forall>i < m. b i \<le> b (Suc i)"
  shows "concat (map (\<lambda>i. [b i..<b (Suc i)]) [0..<m]) = [b 0..<b m]"
  using assms
proof (induction m)
  case 0
  then show ?case by simp
next
  case (Suc m)
  then have mono: "b 0 \<le> b m"
  proof -
    have "\<forall>i < m. b i \<le> b (Suc i)" using Suc.prems by simp
    then show ?thesis
      by (induction m) (auto intro: order_trans)
  qed
  from Suc.prems have step: "b m \<le> b (Suc m)" by simp
  from Suc have "concat (map (\<lambda>i. [b i..<b (Suc i)]) [0..<m]) = [b 0..<b m]" by simp
  then have "concat (map (\<lambda>i. [b i..<b (Suc i)]) [0..<Suc m]) = [b 0..<b m] @ [b m..<b (Suc m)]"
    by simp
  also have "\<dots> = [b 0..<b (Suc m)]"
    using mono step by (metis le_Suc_ex upt_add_eq_append)
  finally show ?case .
qed

lemma chunk_begin_zero: "chunk_begin k n 0 = 0"
  by (simp add: chunk_begin_def)

lemma chunk_begin_end:
  assumes "0 < k"
  shows "chunk_begin k n k = n"
proof -
  from assms have "n mod k < k" by simp
  then have "min k (n mod k) = n mod k" by simp
  then show ?thesis by (simp add: chunk_begin_def)
qed

lemma chunk_begin_mono: "chunk_begin k n i \<le> chunk_begin k n (Suc i)"
  by (simp add: chunk_begin_def min_def)

lemma chunk_begin_le:
  assumes "0 < k" "i \<le> k"
  shows "chunk_begin k n i \<le> n"
proof -
  have "chunk_begin k n i \<le> chunk_begin k n k"
    using assms(2)
  proof (induction rule: inc_induct)
    case base
    show ?case by simp
  next
    case (step m)
    with chunk_begin_mono [of k n m] show ?case by simp
  qed
  with assms(1) show ?thesis by (simp add: chunk_begin_end)
qed

lemma chunks_indices:
  assumes "0 < thread_count"
  shows "concat (map (\<lambda>c. [fst c..<snd c]) (chunks thread_count n)) = [0..<n]"
proof (cases "n = 0")
  case True
  then show ?thesis by (simp add: chunks_def)
next
  case False
  define k where "k = min thread_count n"
  with assms False have k: "0 < k" by simp
  have "concat (map (\<lambda>c. [fst c..<snd c]) (chunks thread_count n)) =
      concat (map (\<lambda>i. [chunk_begin k n i..<chunk_begin k n (Suc i)]) [0..<k])"
    using k by (simp add: chunks_def k_def Let_def comp_def)
  also have "\<dots> = [chunk_begin k n 0..<chunk_begin k n k]"
    by (rule concat_upt_ranges) (simp add: chunk_begin_mono)
  also have "\<dots> = [0..<n]"
    using k by (simp add: chunk_begin_zero chunk_begin_end)
  finally show ?thesis .
qed

lemma chunks_within:
  assumes "c \<in> set (chunks thread_count n)"
  shows "fst c \<le> snd c \<and> snd c \<le> n"
proof -
  define k where "k = min thread_count n"
  from assms have k: "0 < k"
    by (auto simp: chunks_def k_def Let_def split: if_splits)
  with assms obtain i where i: "i < k" "c = (chunk_begin k n i, chunk_begin k n (Suc i))"
    by (auto simp: chunks_def k_def Let_def split: if_splits)
  from k i(1) have "chunk_begin k n (Suc i) \<le> n" by (intro chunk_begin_le) simp_all
  with i(2) chunk_begin_mono [of k n i] show ?thesis by simp
qed

lemma chunks_empty: "chunks thread_count 0 = []"
  by (simp add: chunks_def)

lemma chunks_length: "length (chunks thread_count n) = min thread_count n"
  by (simp add: chunks_def Let_def)

lemma fold_visit:
  assumes "distinct js" "set js \<subseteq> {..<length xs}"
  shows "fold (visit fn) js (xs, log) =
           (map (\<lambda>j. if j \<in> set js then fn (xs ! j) else xs ! j) [0..<length xs], log @ js)"
  using assms
proof (induction js arbitrary: xs log)
  case Nil
  then show ?case by (simp add: map_nth)
next
  case (Cons i js)
  let ?xs = "xs[i := fn (xs ! i)]"
  from Cons.prems have i: "i < length xs" "i \<notin> set js" and d: "distinct js"
    and s: "set js \<subseteq> {..<length ?xs}" by auto
  have "fold (visit fn) (i # js) (xs, log) = fold (visit fn) js (?xs, log @ [i])"
    by (simp add: visit_def)
  also have "\<dots> = (map (\<lambda>j. if j \<in> set js then fn (?xs ! j) else ?xs ! j) [0..<length ?xs],
      (log @ [i]) @ js)"
    using d s by (rule Cons.IH)
  also have "map (\<lambda>j. if j \<in> set js then fn (?xs ! j) else ?xs ! j) [0..<length ?xs] =
      map (\<lambda>j. if j \<in> set (i # js) then fn (xs ! j) else xs ! j) [0..<length xs]"
    using i by (auto simp: nth_list_update)
  finally show ?case by simp
qed

lemma fold_visit_all:
  assumes "mset js = mset [0..<length xs]"
  shows "fold (visit fn) js (xs, []) = (map fn xs, js)"
proof -
  from assms have d: "distinct js" by (metis distinct_upt mset_eq_imp_distinct_iff)
  from assms have s: "set js = {0..<length xs}" by (metis mset_eq_setD set_upt)
  then have "set js \<subseteq> {..<length xs}" by auto
  with d have "fold (visit fn) js (xs, []) =
      (map (\<lambda>j. if j \<in> set js then fn (xs ! j) else xs ! j) [0..<length xs], [] @ js)"
    by (rule fold_visit)
  also have "map (\<lambda>j. if j \<in> set js then fn (xs ! j) else xs ! j) [0..<length xs] =
      map (\<lambda>j. fn (xs ! j)) [0..<length xs]"
    using s by simp
  also have "\<dots> = map fn (map ((!) xs) [0..<length xs])" by simp
  also have "\<dots> = map fn xs" by (simp only: map_nth)
  finally show ?thesis by simp
qed

lemma chunk_task_log:
  "snd (fold (visit fn) js st) = snd st @ js"
  by (induction js arbitrary: st) (simp_all add: visit_def)

lemma ForEach_as_visits:
  "ForEach thread_count fn xs =
     fold (visit fn) (concat (map (\<lambda>c. [fst c..<snd c]) (chunks thread_count (length xs)))) (xs, [])"
proof -
  have "fold (chunk_task fn) cs st = fold (visit fn) (concat (map (\<lambda>c. [fst c..<snd c]) cs)) st"
    for cs and st :: "'a list \<times> nat list"
    by (induction cs arbitrary: st) (simp_all add: chunk_task_def)
  then show ?thesis by (simp add: ForEach_def)
qed

section \<open>The claim about \<open>ForEach\<close>\<close>

text \<open>
  Claim C7: on a pool (its thread count is at least 1), \<open>ForEach\<close> with an operation
  \<open>fn\<close> that returns on every element replaces each element of the range by \<open>fn\<close>
  of it and visits every index exactly once (the log of the visits is the list of the
  indices); each chunk task visits the indices of its chunk in ascending order; in
  whatever order the visits of the chunk tasks interleave, as long as every index is
  visited once, the storage ends the same; one chunk task is submitted per chunk, of
  which there are \<open>min(threadCount, rangeLength)\<close>; the empty range has no chunk and
  is left as it is, with no visit.
\<close>

theorem for_each_once:
  assumes "0 < thread_count"
  shows "ForEach thread_count fn xs = (map fn xs, [0..<length xs]) \<and>
         (\<forall>c \<in> set (chunks thread_count (length xs)). \<forall>st.
            snd (chunk_task fn c st) = snd st @ [fst c..<snd c]) \<and>
         (\<forall>js. mset js = mset [0..<length xs] \<longrightarrow>
            fold (visit fn) js (xs, []) = (map fn xs, js)) \<and>
         length (chunks thread_count (length xs)) = min thread_count (length xs) \<and>
         chunks thread_count 0 = [] \<and> ForEach thread_count fn [] = ([], [])"
proof (intro conjI ballI allI impI)
  show "length (chunks thread_count (length xs)) = min thread_count (length xs)"
    by (rule chunks_length)
  show "ForEach thread_count fn xs = (map fn xs, [0..<length xs])"
    using assms by (simp add: ForEach_as_visits chunks_indices fold_visit_all)
  show "snd (chunk_task fn c st) = snd st @ [fst c..<snd c]" for c st
    by (simp add: chunk_task_def chunk_task_log)
  show "fold (visit fn) js (xs, []) = (map fn xs, js)"
    if "mset js = mset [0..<length xs]" for js
    using that by (rule fold_visit_all)
  show "chunks thread_count 0 = []" by (rule chunks_empty)
  show "ForEach thread_count fn [] = ([], [])" by (simp add: ForEach_def chunks_empty)
qed

theorem for_each_once_witness:
  "ForEach 4 (\<lambda>x. x * 2) [1, 2, 3, 4, 5 :: int] = ([2, 4, 6, 8, 10], [0, 1, 2, 3, 4]) \<and>
   chunks 4 5 = [(0, 2), (2, 3), (3, 4), (4, 5)]"
proof -
  have "(0::nat) < 4" by simp
  from for_each_once [OF this, of "\<lambda>x. x * 2" "[1, 2, 3, 4, 5 :: int]"]
  have "ForEach 4 (\<lambda>x. x * 2) [1, 2, 3, 4, 5 :: int] =
      (map (\<lambda>x. x * 2) [1, 2, 3, 4, 5], [0..<length [1, 2, 3, 4, 5 :: int]])" by blast
  moreover have "[0..<length [1, 2, 3, 4, 5 :: int]] = [0, 1, 2, 3, 4]" by code_simp
  moreover have "chunks 4 5 = [(0, 2), (2, 3), (3, 4), (4, 5)]" by code_simp
  ultimately show ?thesis by simp
qed

end
